theory Spec2Isabelle
  imports Complex_Main "HOL-Library.Multiset" "HOL-Library.Monad_Syntax" "HOL-Library.Sublist"
begin

section \<open>LightSeed: quadtree and peer selection (src/lightseed.js)\<close>

text \<open>
  Numbers are modelled as exact reals: rounding, infinities and NaN of IEEE doubles are
  outside the model, with one exception. What \<open>insert\<close> of the quadtree returns depends
  on the rounding of \<open>x + width\<close> and \<open>width / 2\<close>, so \<open>insert\<close> and \<open>updatePeer\<close> are
  modelled a second time with that rounding (\<open>insert_fl\<close>, \<open>updatePeer_fl\<close> below), and
  the statements about the result of \<open>insert\<close> and about the index after \<open>updatePeer\<close>
  are made there. A division by zero, which gives an infinity or NaN in JavaScript, is
  0 in HOL; every statement about a computed value assumes the divisors non-zero.
  Counters (\<open>capacity\<close>, \<open>maxDepth\<close>) and peer indices are natural numbers: the source
  documents \<open>idx\<close> as a number used as an index of the array \<open>this.peers\<close>; keys that
  are not array indices (which JavaScript would store as plain properties, unseen by
  \<open>forEach\<close> and \<open>length\<close>) are outside the model.
  Field names of the JavaScript objects are prefixed by the object they belong to
  (\<open>point_x\<close>, \<open>rect_x\<close>, \<open>peer_x\<close>, \<open>range_cx\<close>), because a bare \<open>x\<close> would capture
  variables; the fields \<open>capacity\<close>, \<open>boundary\<close> and \<open>c\<close> of the engine carry the
  suffix \<open>_ls\<close> to keep them apart from the fields of the quadtree.
\<close>

subsection \<open>Vector helpers\<close>

definition norm_vec :: "real \<times> real \<Rightarrow> real" where
  "norm_vec vec = sqrt (fst vec ^ 2 + snd vec ^ 2)"

definition dot :: "real \<times> real \<Rightarrow> real \<times> real \<Rightarrow> real" where
  "dot vec1 vec2 = fst vec1 * fst vec2 + snd vec1 * snd vec2"

definition subtract :: "real \<times> real \<Rightarrow> real \<times> real \<Rightarrow> real \<times> real" where
  "subtract vec1 vec2 = (fst vec1 - fst vec2, snd vec1 - snd vec2)"

subsection \<open>QuadTree\<close>

record point =
  point_x :: real
  point_y :: real
  point_idx :: nat

record rect =
  rect_x :: real
  rect_y :: real
  rect_width :: real
  rect_height :: real

record range =
  range_cx :: real
  range_cy :: real
  range_r :: real

text \<open>
  A node with \<open>divided = false\<close> is a \<open>Leaf\<close>; \<open>subdivide\<close> sets the four children and
  \<open>divided = true\<close> together, which is the constructor \<open>Divided\<close>. Both keep the
  fields \<open>boundary\<close>, \<open>capacity\<close> and \<open>points\<close>.
\<close>

datatype quadtree =
  Leaf (boundary: rect) (capacity: nat) (points: "point list")
| Divided (boundary: rect) (capacity: nat) (points: "point list")
    (northwest: quadtree) (northeast: quadtree) (southwest: quadtree) (southeast: quadtree)

fun divided :: "quadtree \<Rightarrow> bool" where
  "divided (Leaf b c ps) = False"
| "divided (Divided b c ps nw ne sw se) = True"

text \<open>\<open>new QuadTree(boundary, capacity)\<close>\<close>

definition QuadTree :: "rect \<Rightarrow> nat \<Rightarrow> quadtree" where
  "QuadTree b c = Leaf b c []"

definition inBoundary :: "quadtree \<Rightarrow> point \<Rightarrow> bool" where
  "inBoundary t p \<longleftrightarrow>
     point_x p \<ge> rect_x (boundary t) \<and>
     point_x p < rect_x (boundary t) + rect_width (boundary t) \<and>
     point_y p \<ge> rect_y (boundary t) \<and>
     point_y p < rect_y (boundary t) + rect_height (boundary t)"

definition subdivide :: "quadtree \<Rightarrow> quadtree" where
  "subdivide t =
     (let x = rect_x (boundary t); y = rect_y (boundary t);
          halfWidth = rect_width (boundary t) / 2;
          halfHeight = rect_height (boundary t) / 2
      in Divided (boundary t) (capacity t) (points t)
           (QuadTree \<lparr>rect_x = x, rect_y = y,
                      rect_width = halfWidth, rect_height = halfHeight\<rparr> (capacity t))
           (QuadTree \<lparr>rect_x = x + halfWidth, rect_y = y,
                      rect_width = halfWidth, rect_height = halfHeight\<rparr> (capacity t))
           (QuadTree \<lparr>rect_x = x, rect_y = y + halfHeight,
                      rect_width = halfWidth, rect_height = halfHeight\<rparr> (capacity t))
           (QuadTree \<lparr>rect_x = x + halfWidth, rect_y = y + halfHeight,
                      rect_width = halfWidth, rect_height = halfHeight\<rparr> (capacity t)))"

text \<open>
  \<open>insert\<close> (here \<open>insert_qt\<close>, since \<open>insert\<close> is taken by sets) returns the boolean of the
  source together with the tree after the call. The recursion into freshly made children
  is not structural and, over the exact reals and for capacity 0, never ends (with the
  rounding of doubles the regions shrink to width 0 and the call returns false, see
  \<open>insert_fl\<close>); a call that does not return is \<open>None\<close>. The four calls joined by \<open>||\<close> run left to right and stop at the first that
  returns true. The node whose children are visited is always divided (it is the node
  itself or what \<open>subdivide\<close> made of it), so the \<open>Leaf\<close> branch of the case below is
  never taken.
\<close>

partial_function (option) insert_qt :: "quadtree \<Rightarrow> point \<Rightarrow> (bool \<times> quadtree) option" where
  "insert_qt t p =
     (if \<not> inBoundary t p then Some (False, t)
      else if length (points t) < capacity t \<and> \<not> divided t
        then Some (True, Leaf (boundary t) (capacity t) (points t @ [p]))
      else
        (case (if \<not> divided t then subdivide t else t) of
           Leaf b c ps \<Rightarrow> None
         | Divided b c ps nw ne sw se \<Rightarrow>
             do {
               (r1, nw') \<leftarrow> insert_qt nw p;
               if r1 then Some (True, Divided b c ps nw' ne sw se)
               else do {
                 (r2, ne') \<leftarrow> insert_qt ne p;
                 if r2 then Some (True, Divided b c ps nw' ne' sw se)
                 else do {
                   (r3, sw') \<leftarrow> insert_qt sw p;
                   if r3 then Some (True, Divided b c ps nw' ne' sw' se)
                   else do {
                     (r4, se') \<leftarrow> insert_qt se p;
                     Some (r4, Divided b c ps nw' ne' sw' se')
                   }
                 }
               }
             }))"

declare insert_qt.simps [code]

definition intersects :: "quadtree \<Rightarrow> range \<Rightarrow> bool" where
  "intersects t rg =
     (let x = rect_x (boundary t); y = rect_y (boundary t);
          width = rect_width (boundary t); height = rect_height (boundary t);
          closestX = max x (min (range_cx rg) (x + width));
          closestY = max y (min (range_cy rg) (y + height));
          dx = closestX - range_cx rg;
          dy = closestY - range_cy rg
      in dx * dx + dy * dy \<le> range_r rg * range_r rg)"

definition pointInRange :: "point \<Rightarrow> range \<Rightarrow> bool" where
  "pointInRange p rg =
     (let dx = point_x p - range_cx rg; dy = point_y p - range_cy rg
      in dx * dx + dy * dy \<le> range_r rg * range_r rg)"

fun query :: "quadtree \<Rightarrow> range \<Rightarrow> point list \<Rightarrow> point list" where
  "query (Leaf b c ps) rg found =
     (if \<not> intersects (Leaf b c ps) rg then found
      else found @ filter (\<lambda>p. pointInRange p rg) ps)"
| "query (Divided b c ps nw ne sw se) rg found =
     (if \<not> intersects (Divided b c ps nw ne sw se) rg then found
      else query se rg (query sw rg (query ne rg (query nw rg
             (found @ filter (\<lambda>p. pointInRange p rg) ps)))))"

subsection \<open>LightSeed\<close>

record config =
  worldSize :: real
  maxDepth :: nat
  capacity_ls :: nat
  nCells :: real
  deltaT :: real
  sigma :: real
  d0 :: real
  v0 :: real
  beta :: real
  epsilon :: real

definition DEFAULT_CONFIG :: config where
  "DEFAULT_CONFIG =
     \<lparr>worldSize = 1000, maxDepth = 5, capacity_ls = 4, nCells = 2, deltaT = 1,
      sigma = 0.1, d0 = 100, v0 = 5, beta = 1.0, epsilon = 0.05\<rparr>"

record peer =
  peer_idx :: nat
  peer_x :: real
  peer_y :: real
  peer_vx :: real
  peer_vy :: real
  peer_tdf :: real
  peer_latency :: real

text \<open>
  The engine copies every configuration value into a field of its own and adds the derived
  constants, the index and the participant array. \<open>this.peers\<close> is a JavaScript array
  with holes: an entry never written is \<open>None\<close>.
\<close>

record lightseed = config +
  cellSize :: real
  c_ls :: real
  boundary_ls :: rect
  quadtree :: quadtree
  peers :: "peer option list"

text \<open>Reading \<open>xs[i]\<close>: out of range gives \<open>undefined\<close>.\<close>

definition array_get :: "'a option list \<Rightarrow> nat \<Rightarrow> 'a option" where
  "array_get xs i = (if i < length xs then xs ! i else None)"

text \<open>Writing \<open>xs[i] = v\<close>: beyond the end the array grows, leaving holes.\<close>

definition array_set :: "'a option list \<Rightarrow> nat \<Rightarrow> 'a \<Rightarrow> 'a option list" where
  "array_set xs i v =
     (if i < length xs then xs[i := Some v]
      else xs @ replicate (i - length xs) None @ [Some v])"

text \<open>The constructor, applied to the configuration merged with the defaults.\<close>

definition LightSeed :: "config \<Rightarrow> lightseed" where
  "LightSeed cfg =
     (let cs = worldSize cfg / 2 ^ maxDepth cfg;
          b = \<lparr>rect_x = 0, rect_y = 0,
               rect_width = worldSize cfg, rect_height = worldSize cfg\<rparr>
      in \<lparr>worldSize = worldSize cfg, maxDepth = maxDepth cfg,
          capacity_ls = capacity_ls cfg, nCells = nCells cfg, deltaT = deltaT cfg,
          sigma = sigma cfg, d0 = d0 cfg, v0 = v0 cfg, beta = beta cfg,
          epsilon = epsilon cfg,
          cellSize = cs, c_ls = nCells cfg * cs, boundary_ls = b,
          quadtree = QuadTree b (capacity_ls cfg), peers = []\<rparr>)"

definition insertPeer :: "lightseed \<Rightarrow> nat \<Rightarrow> real \<Rightarrow> real \<Rightarrow> lightseed option" where
  "insertPeer s idx x y =
     do {
       (ok, q) \<leftarrow> insert_qt (quadtree s) \<lparr>point_x = x, point_y = y, point_idx = idx\<rparr>;
       Some (s\<lparr>quadtree := q,
               peers := array_set (peers s) idx
                 \<lparr>peer_idx = idx, peer_x = x, peer_y = y, peer_vx = 0, peer_vy = 0,
                  peer_tdf = 1.0, peer_latency = 0\<rparr>\<rparr>)
     }"

text \<open>
  The \<open>forEach\<close> of \<open>updatePeer\<close>: holes are skipped, every record is inserted in index
  order, the boolean of \<open>insert\<close> is dropped.
\<close>

fun forEach_insert :: "quadtree \<Rightarrow> peer option list \<Rightarrow> quadtree option" where
  "forEach_insert q [] = Some q"
| "forEach_insert q (None # ps) = forEach_insert q ps"
| "forEach_insert q (Some pr # ps) =
     do {
       (ok, q') \<leftarrow> insert_qt q
          \<lparr>point_x = peer_x pr, point_y = peer_y pr, point_idx = peer_idx pr\<rparr>;
       forEach_insert q' ps
     }"

definition updatePeer ::
  "lightseed \<Rightarrow> nat \<Rightarrow> real \<Rightarrow> real \<Rightarrow> real \<Rightarrow> real \<Rightarrow> real \<Rightarrow> real \<Rightarrow> lightseed option" where
  "updatePeer s idx x y vx vy tdf latency =
     (let ps = array_set (peers s) idx
                 \<lparr>peer_idx = idx, peer_x = x, peer_y = y, peer_vx = vx, peer_vy = vy,
                  peer_tdf = tdf, peer_latency = latency\<rparr>
      in do {
        q \<leftarrow> forEach_insert (QuadTree (boundary_ls s) (capacity_ls s)) ps;
        Some (s\<lparr>peers := ps, quadtree := q\<rparr>)
      })"

datatype error = TypeError

text \<open>The weight of one candidate: the body of the loop of \<open>selectPeers\<close>.\<close>

definition weight :: "lightseed \<Rightarrow> peer \<Rightarrow> peer \<Rightarrow> peer \<Rightarrow> real" where
  "weight s sender player pr =
     (let latencyTerm = 1 / max (peer_latency pr) 0.001;
          tdfDiff = peer_tdf sender - peer_tdf pr;
          tdfTerm = exp (- (tdfDiff ^ 2) / (2 * sigma s ^ 2));
          pk = (peer_x player, peer_y player);
          pj = (peer_x pr, peer_y pr);
          relPosition = subtract pk pj;
          dkj = norm_vec relPosition;
          distanceTerm = 1 / (1 + dkj / d0 s);
          skj = (if dkj > 0 then
                   let vk = (peer_vx player, peer_vy player);
                       vj = (peer_vx pr, peer_vy pr);
                       relVelocity = subtract vk vj
                   in max 0 (- dot relVelocity relPosition / dkj)
                 else 0);
          speedTerm = 1 + beta s * (skj / v0 s)
      in latencyTerm * tdfTerm * distanceTerm * speedTerm)"

text \<open>
  The loop over \<open>peersInRange\<close>. Reading \<open>this.peers[playerIdx].x\<close> of an absent subject
  throws a TypeError; it is reached only for a candidate that is not skipped.
\<close>

fun weights_loop ::
  "lightseed \<Rightarrow> peer \<Rightarrow> nat \<Rightarrow> nat \<Rightarrow> nat list \<Rightarrow> real list \<Rightarrow> error + real list" where
  "weights_loop s sender senderIdx playerIdx [] weights = Inr weights"
| "weights_loop s sender senderIdx playerIdx (j # js) weights =
     (if j = senderIdx then weights_loop s sender senderIdx playerIdx js weights
      else case array_get (peers s) j of
        None \<Rightarrow> weights_loop s sender senderIdx playerIdx js weights
      | Some pr \<Rightarrow>
          (case array_get (peers s) playerIdx of
             None \<Rightarrow> Inl TypeError
           | Some player \<Rightarrow>
               weights_loop s sender senderIdx playerIdx js
                 (weights @ [weight s sender player pr])))"

text \<open>\<open>xs.filter((_, i) => P i)\<close> and \<open>xs.map((v, i) => f v i)\<close>, callbacks with the index.\<close>

definition filter_index :: "(nat \<Rightarrow> bool) \<Rightarrow> 'a list \<Rightarrow> 'a list" where
  "filter_index P xs = map fst (filter (\<lambda>(v, i). P i) (zip xs [0..<length xs]))"

definition map_index :: "('a \<Rightarrow> nat \<Rightarrow> 'b) \<Rightarrow> 'a list \<Rightarrow> 'b list" where
  "map_index f xs = map (\<lambda>(v, i). f v i) (zip xs [0..<length xs])"

record selection =
  peerIdx :: nat
  prob :: real

text \<open>
  \<open>selectPeers\<close> writes to no field of the engine; the state is returned beside the
  result. \<open>weights[i] !== undefined\<close> holds exactly for \<open>i < weights.length\<close>, since only
  numbers are pushed; \<open>v || 1\<close> replaces a zero by 1.
\<close>

definition selectPeers ::
  "lightseed \<Rightarrow> nat \<Rightarrow> nat \<Rightarrow> error + (selection list \<times> lightseed)" where
  "selectPeers s senderIdx playerIdx =
     (case array_get (peers s) senderIdx of
        None \<Rightarrow> Inr ([], s)
      | Some sender \<Rightarrow>
          (let rg = \<lparr>range_cx = peer_x sender, range_cy = peer_y sender,
                     range_r = c_ls s * deltaT s\<rparr>;
               peersInRange = map point_idx (query (quadtree s) rg [])
           in case weights_loop s sender senderIdx playerIdx peersInRange [] of
                Inl e \<Rightarrow> Inl e
              | Inr weights \<Rightarrow>
                  (let totalWeight =
                         (if foldl (+) 0 weights = 0 then 1 else foldl (+) 0 weights);
                       probs = map (\<lambda>w. (1 - epsilon s) * (w / totalWeight)
                                     + epsilon s /
                                       (if length (peers s) = 0 then 1
                                        else real (length (peers s)))) weights
                   in Inr (map_index (\<lambda>j i. \<lparr>peerIdx = j, prob = probs ! i\<rparr>)
                             (filter_index (\<lambda>i. i < length weights) peersInRange),
                           s))))"

subsection \<open>Predicates used to state the properties\<close>

text \<open>All points held by a node and its descendants, in the order \<open>query\<close> visits them.\<close>

fun all_points :: "quadtree \<Rightarrow> point list" where
  "all_points (Leaf b c ps) = ps"
| "all_points (Divided b c ps nw ne sw se) =
     ps @ all_points nw @ all_points ne @ all_points sw @ all_points se"

text \<open>
  The shape the code maintains: every node has capacity \<open>C\<close>; a leaf holds at most \<open>C\<close>
  points; a divided node keeps the \<open>C\<close> points it held when it was subdivided
  (\<open>subdivide\<close> does not move them into the children).
\<close>

fun shape :: "nat \<Rightarrow> quadtree \<Rightarrow> bool" where
  "shape C (Leaf b c ps) \<longleftrightarrow> c = C \<and> length ps \<le> C"
| "shape C (Divided b c ps nw ne sw se) \<longleftrightarrow>
     c = C \<and> length ps = C \<and> shape C nw \<and> shape C ne \<and> shape C sw \<and> shape C se"

text \<open>
  The shape as the specification words it: a leaf holds at most \<open>C\<close> points, an internal
  node holds no point itself.
\<close>

fun claimed_shape :: "nat \<Rightarrow> quadtree \<Rightarrow> bool" where
  "claimed_shape C (Leaf b c ps) \<longleftrightarrow> length ps \<le> C"
| "claimed_shape C (Divided b c ps nw ne sw se) \<longleftrightarrow>
     ps = [] \<and> claimed_shape C nw \<and> claimed_shape C ne \<and>
     claimed_shape C sw \<and> claimed_shape C se"

text \<open>
  How a tree may change into a later one: every node keeps its region and capacity; a
  leaf may gain points at the end of its sequence and may become divided; a divided node
  stays divided, at the same place, and holds exactly the points it held before.
\<close>

fun stays_divided :: "quadtree \<Rightarrow> quadtree \<Rightarrow> bool" where
  "stays_divided (Leaf b c ps) t' \<longleftrightarrow>
     boundary t' = b \<and> capacity t' = c \<and> prefix ps (points t')"
| "stays_divided (Divided b c ps nw ne sw se) t' \<longleftrightarrow>
     (case t' of
        Leaf b' c' ps' \<Rightarrow> False
      | Divided b' c' ps' nw' ne' sw' se' \<Rightarrow>
          b' = b \<and> c' = c \<and> ps' = ps \<and>
          stays_divided nw nw' \<and> stays_divided ne ne' \<and>
          stays_divided sw sw' \<and> stays_divided se se')"

text \<open>Every point below a node lies in the region of that node.\<close>

fun bounded :: "quadtree \<Rightarrow> bool" where
  "bounded (Leaf b c ps) \<longleftrightarrow> (\<forall>p \<in> set ps. inBoundary (Leaf b c ps) p)"
| "bounded (Divided b c ps nw ne sw se) \<longleftrightarrow>
     (\<forall>p \<in> set (all_points (Divided b c ps nw ne sw se)).
        inBoundary (Divided b c ps nw ne sw se) p) \<and>
     bounded nw \<and> bounded ne \<and> bounded sw \<and> bounded se"

text \<open>
  The children of every divided node have the regions and the capacity that \<open>subdivide\<close>
  gives them.
\<close>

definition same_frame :: "quadtree \<Rightarrow> quadtree \<Rightarrow> bool" where
  "same_frame t u \<longleftrightarrow> boundary t = boundary u \<and> capacity t = capacity u"

fun tiled :: "quadtree \<Rightarrow> bool" where
  "tiled (Leaf b c ps) \<longleftrightarrow> True"
| "tiled (Divided b c ps nw ne sw se) \<longleftrightarrow>
     same_frame nw (northwest (subdivide (Leaf b c ps))) \<and>
     same_frame ne (northeast (subdivide (Leaf b c ps))) \<and>
     same_frame sw (southwest (subdivide (Leaf b c ps))) \<and>
     same_frame se (southeast (subdivide (Leaf b c ps))) \<and>
     tiled nw \<and> tiled ne \<and> tiled sw \<and> tiled se"

text \<open>
  A sequence of \<open>insert\<close> calls on one tree: the tree after the last call and the points
  whose call returned true.
\<close>

fun insert_seq :: "quadtree \<Rightarrow> point list \<Rightarrow> (quadtree \<times> point list) option" where
  "insert_seq t [] = Some (t, [])"
| "insert_seq t (p # qs) =
     do {
       (ok, t') \<leftarrow> insert_qt t p;
       (t'', acc) \<leftarrow> insert_seq t' qs;
       Some (t'', if ok then p # acc else acc)
     }"

subsection \<open>A small tree: capacity 1, two points accepted, one rejected\<close>

definition example_boundary :: rect where
  "example_boundary = \<lparr>rect_x = 0, rect_y = 0, rect_width = 100, rect_height = 100\<rparr>"

definition example_p0 :: point where
  "example_p0 = \<lparr>point_x = 10, point_y = 10, point_idx = 0\<rparr>"

definition example_p1 :: point where
  "example_p1 = \<lparr>point_x = 60, point_y = 60, point_idx = 1\<rparr>"

definition example_p2 :: point where
  "example_p2 = \<lparr>point_x = 200, point_y = 5, point_idx = 2\<rparr>"

definition example_p3 :: point where
  "example_p3 = \<lparr>point_x = 20, point_y = 20, point_idx = 3\<rparr>"

definition example_points :: "point list" where
  "example_points = [example_p0, example_p1, example_p2]"

definition example_tree :: quadtree where
  "example_tree =
     Divided example_boundary 1 [example_p0]
       (Leaf \<lparr>rect_x = 0, rect_y = 0, rect_width = 50, rect_height = 50\<rparr> 1 [])
       (Leaf \<lparr>rect_x = 50, rect_y = 0, rect_width = 50, rect_height = 50\<rparr> 1 [])
       (Leaf \<lparr>rect_x = 0, rect_y = 50, rect_width = 50, rect_height = 50\<rparr> 1 [])
       (Leaf \<lparr>rect_x = 50, rect_y = 50, rect_width = 50, rect_height = 50\<rparr> 1 [example_p1])"

definition example_tree' :: quadtree where
  "example_tree' =
     Divided example_boundary 1 [example_p0]
       (Leaf \<lparr>rect_x = 0, rect_y = 0, rect_width = 50, rect_height = 50\<rparr> 1 [example_p3])
       (Leaf \<lparr>rect_x = 50, rect_y = 0, rect_width = 50, rect_height = 50\<rparr> 1 [])
       (Leaf \<lparr>rect_x = 0, rect_y = 50, rect_width = 50, rect_height = 50\<rparr> 1 [])
       (Leaf \<lparr>rect_x = 50, rect_y = 50, rect_width = 50, rect_height = 50\<rparr> 1 [example_p1])"

subsection \<open>The engine: stored records, sequences of calls, invariants\<close>

text \<open>The records of the participant array, in index order, holes skipped.\<close>

fun live :: "peer option list \<Rightarrow> peer list" where
  "live [] = []"
| "live (None # ps) = live ps"
| "live (Some pr # ps) = pr # live ps"

text \<open>The point \<open>updatePeer\<close> builds from a record.\<close>

definition peer_point :: "peer \<Rightarrow> point" where
  "peer_point pr = \<lparr>point_x = peer_x pr, point_y = peer_y pr, point_idx = peer_idx pr\<rparr>"

text \<open>The record \<open>insertPeer\<close> stores.\<close>

definition new_peer :: "nat \<Rightarrow> real \<Rightarrow> real \<Rightarrow> peer" where
  "new_peer idx x y =
     \<lparr>peer_idx = idx, peer_x = x, peer_y = y, peer_vx = 0, peer_vy = 0,
      peer_tdf = 1, peer_latency = 0\<rparr>"

text \<open>
  The engine states are those reached from the constructor by calls of the two mutating
  methods; \<open>run\<close> is \<open>None\<close> when one of the calls does not return.
\<close>

datatype call =
  InsertPeer nat real real
| UpdatePeer nat real real real real real real

fun apply_call :: "lightseed \<Rightarrow> call \<Rightarrow> lightseed option" where
  "apply_call s (InsertPeer idx x y) = insertPeer s idx x y"
| "apply_call s (UpdatePeer idx x y vx vy tdf latency) = updatePeer s idx x y vx vy tdf latency"

fun run :: "lightseed \<Rightarrow> call list \<Rightarrow> lightseed option" where
  "run s [] = Some s"
| "run s (c # cs) = do { s' \<leftarrow> apply_call s c; run s' cs }"

text \<open>The derived fields hold what the constructor computed; no method assigns them.\<close>

definition derived_ok :: "lightseed \<Rightarrow> bool" where
  "derived_ok s \<longleftrightarrow>
     cellSize s = worldSize s / 2 ^ maxDepth s \<and>
     c_ls s = nCells s * cellSize s \<and>
     boundary_ls s = \<lparr>rect_x = 0, rect_y = 0,
                      rect_width = worldSize s, rect_height = worldSize s\<rparr>"

definition engine_inv :: "lightseed \<Rightarrow> bool" where
  "engine_inv s \<longleftrightarrow>
     derived_ok s \<and> tiled (quadtree s) \<and> bounded (quadtree s) \<and>
     boundary (quadtree s) = boundary_ls s \<and> capacity (quadtree s) = capacity_ls s"

text \<open>Every record sits at the index it names.\<close>

definition ids_ok :: "peer option list \<Rightarrow> bool" where
  "ids_ok ps \<longleftrightarrow> (\<forall>i pr. array_get ps i = Some pr \<longrightarrow> peer_idx pr = i)"

text \<open>
  No index entry is stale: every indexed point carries the position of the current record
  of its id.
\<close>

definition index_synced :: "lightseed \<Rightarrow> bool" where
  "index_synced s \<longleftrightarrow>
     (\<forall>p \<in> set (all_points (quadtree s)).
        \<exists>pr. array_get (peers s) (point_idx p) = Some pr \<and>
             peer_x pr = point_x p \<and> peer_y pr = point_y p)"

subsection \<open>Candidates and probabilities of \<open>selectPeers\<close>\<close>

text \<open>The ids \<open>selectPeers\<close> gets from the index for a sender: its \<open>peersInRange\<close>.\<close>

definition peersInRange :: "lightseed \<Rightarrow> peer \<Rightarrow> nat list" where
  "peersInRange s sender =
     map point_idx (query (quadtree s)
       \<lparr>range_cx = peer_x sender, range_cy = peer_y sender,
        range_r = c_ls s * deltaT s\<rparr> [])"

text \<open>
  The probability the code computes from a weight, when the participant array is not
  empty: the second summand divides by the length of the array.
\<close>

definition code_prob :: "lightseed \<Rightarrow> real list \<Rightarrow> real \<Rightarrow> real" where
  "code_prob s ws w =
     (1 - epsilon s) * (w / (if sum_list ws = 0 then 1 else sum_list ws))
     + epsilon s / real (length (peers s))"

text \<open>
  The probability as the specification words it: the second summand divides by the number
  of participants.
\<close>

definition claimed_prob :: "lightseed \<Rightarrow> real list \<Rightarrow> real \<Rightarrow> real" where
  "claimed_prob s ws w =
     (1 - epsilon s) * (w / (if sum_list ws = 0 then 1 else sum_list ws))
     + epsilon s / real (length (live (peers s)))"

text \<open>The causal horizon \<open>R\<close> as the specification words it.\<close>

definition horizon :: "lightseed \<Rightarrow> real" where
  "horizon s = nCells s * (worldSize s / 2 ^ maxDepth s) * deltaT s"

subsection \<open>The scenario of the specification\<close>

text \<open>
  World side 800, the other values by default; four participants inserted, then all
  updated at their positions, participant 0 with tdf 0.9 and the others with tdf 1. The
  specification leaves velocities and latencies open: \<open>v\<close> and \<open>lat\<close> give them per
  participant. \<open>scenario_state\<close> is the state these calls reach.
\<close>

definition scenario_config :: config where
  "scenario_config = DEFAULT_CONFIG\<lparr>worldSize := 800\<rparr>"

definition scenario_inserts :: "call list" where
  "scenario_inserts =
     [InsertPeer 0 100 100, InsertPeer 1 150 100, InsertPeer 2 100 200, InsertPeer 3 500 500]"

definition scenario_updates :: "(nat \<Rightarrow> real \<times> real) \<Rightarrow> (nat \<Rightarrow> real) \<Rightarrow> call list" where
  "scenario_updates v lat =
     [UpdatePeer 0 100 100 (fst (v 0)) (snd (v 0)) 0.9 (lat 0),
      UpdatePeer 1 150 100 (fst (v 1)) (snd (v 1)) 1.0 (lat 1),
      UpdatePeer 2 100 200 (fst (v 2)) (snd (v 2)) 1.0 (lat 2),
      UpdatePeer 3 500 500 (fst (v 3)) (snd (v 3)) 1.0 (lat 3)]"

definition scenario_peer ::
  "(nat \<Rightarrow> real \<times> real) \<Rightarrow> (nat \<Rightarrow> real) \<Rightarrow> nat \<Rightarrow> real \<Rightarrow> real \<Rightarrow> real \<Rightarrow> peer" where
  "scenario_peer v lat i x y tdf =
     \<lparr>peer_idx = i, peer_x = x, peer_y = y, peer_vx = fst (v i), peer_vy = snd (v i),
      peer_tdf = tdf, peer_latency = lat i\<rparr>"

definition scenario_state :: "(nat \<Rightarrow> real \<times> real) \<Rightarrow> (nat \<Rightarrow> real) \<Rightarrow> lightseed" where
  "scenario_state v lat =
     (LightSeed scenario_config)
       \<lparr>quadtree :=
          Leaf \<lparr>rect_x = 0, rect_y = 0, rect_width = 800, rect_height = 800\<rparr> 4
            [\<lparr>point_x = 100, point_y = 100, point_idx = 0\<rparr>,
             \<lparr>point_x = 150, point_y = 100, point_idx = 1\<rparr>,
             \<lparr>point_x = 100, point_y = 200, point_idx = 2\<rparr>,
             \<lparr>point_x = 500, point_y = 500, point_idx = 3\<rparr>],
        peers :=
          [Some (scenario_peer v lat 0 100 100 0.9), Some (scenario_peer v lat 1 150 100 1),
           Some (scenario_peer v lat 2 100 200 1), Some (scenario_peer v lat 3 500 500 1)]\<rparr>"

text \<open>One choice of the open values: everybody at rest, latency 50 ms.\<close>

definition scenario_v :: "nat \<Rightarrow> real \<times> real" where
  "scenario_v i = (0, 0)"

definition scenario_lat :: "nat \<Rightarrow> real" where
  "scenario_lat i = 0.05"

subsection \<open>Three small engines with the default configuration\<close>

definition world_1000 :: rect where
  "world_1000 = \<lparr>rect_x = 0, rect_y = 0, rect_width = 1000, rect_height = 1000\<rparr>"

text \<open>Two participants, 50 apart.\<close>

definition two_peers_calls :: "call list" where
  "two_peers_calls = [InsertPeer 0 100 100, InsertPeer 1 150 100]"

definition two_peers_state :: lightseed where
  "two_peers_state =
     (LightSeed DEFAULT_CONFIG)
       \<lparr>quadtree := Leaf world_1000 4
          [\<lparr>point_x = 100, point_y = 100, point_idx = 0\<rparr>,
           \<lparr>point_x = 150, point_y = 100, point_idx = 1\<rparr>],
        peers := [Some (new_peer 0 100 100), Some (new_peer 1 150 100)]\<rparr>"

text \<open>The same two participants under the ids 0 and 2: the array has a hole at 1.\<close>

definition sparse_calls :: "call list" where
  "sparse_calls = [InsertPeer 0 100 100, InsertPeer 2 150 100]"

definition sparse_state :: lightseed where
  "sparse_state =
     (LightSeed DEFAULT_CONFIG)
       \<lparr>quadtree := Leaf world_1000 4
          [\<lparr>point_x = 100, point_y = 100, point_idx = 0\<rparr>,
           \<lparr>point_x = 150, point_y = 100, point_idx = 2\<rparr>],
        peers := [Some (new_peer 0 100 100), None, Some (new_peer 2 150 100)]\<rparr>"

definition sparse_weight :: real where
  "sparse_weight =
     weight sparse_state (new_peer 2 150 100) (new_peer 2 150 100) (new_peer 0 100 100)"

text \<open>
  Participant 1 inserted at (20, 10), participant 0 at (10, 10), then participant 1
  inserted again at (900, 900): the index keeps both points of participant 1.
\<close>

definition stale_calls :: "call list" where
  "stale_calls = [InsertPeer 1 20 10, InsertPeer 0 10 10, InsertPeer 1 900 900]"

definition stale_state :: lightseed where
  "stale_state =
     (LightSeed DEFAULT_CONFIG)
       \<lparr>quadtree := Leaf world_1000 4
          [\<lparr>point_x = 20, point_y = 10, point_idx = 1\<rparr>,
           \<lparr>point_x = 10, point_y = 10, point_idx = 0\<rparr>,
           \<lparr>point_x = 900, point_y = 900, point_idx = 1\<rparr>],
        peers := [Some (new_peer 0 10 10), Some (new_peer 1 900 900)]\<rparr>"

subsection \<open>Insertion with the rounding of doubles\<close>

text \<open>
  JavaScript numbers are IEEE 754 doubles: the result of \<open>+\<close> and \<open>/\<close> is the exact result
  rounded to the nearest double, a tie going to the even significand. \<open>double\<close> is that
  rounding on the reals: doubles around \<open>x\<close> are the multiples of
  \<open>2 powi (\<lfloor>log 2 \<bar>x\<bar>\<rfloor> - 52)\<close>, and of \<open>2 powi (- 1074)\<close> below the normal range.
  Overflow to infinity (beyond about 1.8e308) is not modelled.
\<close>

definition round_half_even :: "real \<Rightarrow> int" where
  "round_half_even q =
     (if q - of_int \<lfloor>q\<rfloor> < 1 / 2 then \<lfloor>q\<rfloor>
      else if 1 / 2 < q - of_int \<lfloor>q\<rfloor> then \<lfloor>q\<rfloor> + 1
      else if even \<lfloor>q\<rfloor> then \<lfloor>q\<rfloor> else \<lfloor>q\<rfloor> + 1)"

definition double_exponent :: "real \<Rightarrow> int" where
  "double_exponent x = max (\<lfloor>log 2 \<bar>x\<bar>\<rfloor> - 52) (- 1074)"

definition double :: "real \<Rightarrow> real" where
  "double x =
     (if x = 0 then 0
      else of_int (round_half_even (x / 2 powi double_exponent x)) * 2 powi double_exponent x)"

text \<open>
  \<open>inBoundary\<close>, \<open>subdivide\<close> and \<open>insert\<close> once more, every arithmetic result passed
  through a rounding function \<open>fl\<close>: \<open>x + width\<close> and \<open>y + height\<close> in \<open>inBoundary\<close>;
  \<open>width / 2\<close>, \<open>height / 2\<close>, \<open>x + halfWidth\<close> and \<open>y + halfHeight\<close> in \<open>subdivide\<close>.
  With \<open>fl = double\<close> this is the arithmetic of the source; with the identity it is the
  exact model above.
\<close>

definition inBoundary_fl :: "(real \<Rightarrow> real) \<Rightarrow> quadtree \<Rightarrow> point \<Rightarrow> bool" where
  "inBoundary_fl fl t p \<longleftrightarrow>
     point_x p \<ge> rect_x (boundary t) \<and>
     point_x p < fl (rect_x (boundary t) + rect_width (boundary t)) \<and>
     point_y p \<ge> rect_y (boundary t) \<and>
     point_y p < fl (rect_y (boundary t) + rect_height (boundary t))"

definition subdivide_fl :: "(real \<Rightarrow> real) \<Rightarrow> quadtree \<Rightarrow> quadtree" where
  "subdivide_fl fl t =
     (let x = rect_x (boundary t); y = rect_y (boundary t);
          halfWidth = fl (rect_width (boundary t) / 2);
          halfHeight = fl (rect_height (boundary t) / 2)
      in Divided (boundary t) (capacity t) (points t)
           (QuadTree \<lparr>rect_x = x, rect_y = y,
                      rect_width = halfWidth, rect_height = halfHeight\<rparr> (capacity t))
           (QuadTree \<lparr>rect_x = fl (x + halfWidth), rect_y = y,
                      rect_width = halfWidth, rect_height = halfHeight\<rparr> (capacity t))
           (QuadTree \<lparr>rect_x = x, rect_y = fl (y + halfHeight),
                      rect_width = halfWidth, rect_height = halfHeight\<rparr> (capacity t))
           (QuadTree \<lparr>rect_x = fl (x + halfWidth), rect_y = fl (y + halfHeight),
                      rect_width = halfWidth, rect_height = halfHeight\<rparr> (capacity t)))"

partial_function (option) insert_fl ::
  "(real \<Rightarrow> real) \<Rightarrow> quadtree \<Rightarrow> point \<Rightarrow> (bool \<times> quadtree) option" where
  "insert_fl fl t p =
     (if \<not> inBoundary_fl fl t p then Some (False, t)
      else if length (points t) < capacity t \<and> \<not> divided t
        then Some (True, Leaf (boundary t) (capacity t) (points t @ [p]))
      else
        (case (if \<not> divided t then subdivide_fl fl t else t) of
           Leaf b c ps \<Rightarrow> None
         | Divided b c ps nw ne sw se \<Rightarrow>
             do {
               (r1, nw') \<leftarrow> insert_fl fl nw p;
               if r1 then Some (True, Divided b c ps nw' ne sw se)
               else do {
                 (r2, ne') \<leftarrow> insert_fl fl ne p;
                 if r2 then Some (True, Divided b c ps nw' ne' sw se)
                 else do {
                   (r3, sw') \<leftarrow> insert_fl fl sw p;
                   if r3 then Some (True, Divided b c ps nw' ne' sw' se)
                   else do {
                     (r4, se') \<leftarrow> insert_fl fl se p;
                     Some (r4, Divided b c ps nw' ne' sw' se')
                   }
                 }
               }
             }))"

declare insert_fl.simps [code]

text \<open>A sequence of \<open>insert\<close> calls, as \<open>insert_seq\<close> above.\<close>

fun insert_seq_fl ::
  "(real \<Rightarrow> real) \<Rightarrow> quadtree \<Rightarrow> point list \<Rightarrow> (quadtree \<times> point list) option" where
  "insert_seq_fl fl t [] = Some (t, [])"
| "insert_seq_fl fl t (p # qs) =
     do {
       (ok, t') \<leftarrow> insert_fl fl t p;
       (t'', acc) \<leftarrow> insert_seq_fl fl t' qs;
       Some (t'', if ok then p # acc else acc)
     }"

text \<open>The two mutating methods of the engine and sequences of their calls, over \<open>insert_fl\<close>.\<close>

definition insertPeer_fl ::
  "(real \<Rightarrow> real) \<Rightarrow> lightseed \<Rightarrow> nat \<Rightarrow> real \<Rightarrow> real \<Rightarrow> lightseed option" where
  "insertPeer_fl fl s idx x y =
     do {
       (ok, q) \<leftarrow> insert_fl fl (quadtree s) \<lparr>point_x = x, point_y = y, point_idx = idx\<rparr>;
       Some (s\<lparr>quadtree := q,
               peers := array_set (peers s) idx
                 \<lparr>peer_idx = idx, peer_x = x, peer_y = y, peer_vx = 0, peer_vy = 0,
                  peer_tdf = 1.0, peer_latency = 0\<rparr>\<rparr>)
     }"

fun forEach_insert_fl :: "(real \<Rightarrow> real) \<Rightarrow> quadtree \<Rightarrow> peer option list \<Rightarrow> quadtree option" where
  "forEach_insert_fl fl q [] = Some q"
| "forEach_insert_fl fl q (None # ps) = forEach_insert_fl fl q ps"
| "forEach_insert_fl fl q (Some pr # ps) =
     do {
       (ok, q') \<leftarrow> insert_fl fl q
          \<lparr>point_x = peer_x pr, point_y = peer_y pr, point_idx = peer_idx pr\<rparr>;
       forEach_insert_fl fl q' ps
     }"

definition updatePeer_fl ::
  "(real \<Rightarrow> real) \<Rightarrow> lightseed \<Rightarrow> nat \<Rightarrow> real \<Rightarrow> real \<Rightarrow> real \<Rightarrow> real \<Rightarrow> real \<Rightarrow> real
   \<Rightarrow> lightseed option" where
  "updatePeer_fl fl s idx x y vx vy tdf latency =
     (let ps = array_set (peers s) idx
                 \<lparr>peer_idx = idx, peer_x = x, peer_y = y, peer_vx = vx, peer_vy = vy,
                  peer_tdf = tdf, peer_latency = latency\<rparr>
      in do {
        q \<leftarrow> forEach_insert_fl fl (QuadTree (boundary_ls s) (capacity_ls s)) ps;
        Some (s\<lparr>peers := ps, quadtree := q\<rparr>)
      })"

fun apply_call_fl :: "(real \<Rightarrow> real) \<Rightarrow> lightseed \<Rightarrow> call \<Rightarrow> lightseed option" where
  "apply_call_fl fl s (InsertPeer idx x y) = insertPeer_fl fl s idx x y"
| "apply_call_fl fl s (UpdatePeer idx x y vx vy tdf latency) =
     updatePeer_fl fl s idx x y vx vy tdf latency"

fun run_fl :: "(real \<Rightarrow> real) \<Rightarrow> lightseed \<Rightarrow> call list \<Rightarrow> lightseed option" where
  "run_fl fl s [] = Some s"
| "run_fl fl s (c # cs) = do { s' \<leftarrow> apply_call_fl fl s c; run_fl fl s' cs }"

text \<open>Every node has a capacity of at least 1.\<close>

fun cap_pos :: "quadtree \<Rightarrow> bool" where
  "cap_pos (Leaf b c ps) \<longleftrightarrow> 1 \<le> c"
| "cap_pos (Divided b c ps nw ne sw se) \<longleftrightarrow>
     1 \<le> c \<and> cap_pos nw \<and> cap_pos ne \<and> cap_pos sw \<and> cap_pos se"

text \<open>
  Every number of the program is a double. Of this, the proof that \<open>insert\<close> returns
  needs that the \<open>x\<close> origin of every region is one, that is, a value the rounding
  leaves as it is.
\<close>

fun origin_rounded :: "(real \<Rightarrow> real) \<Rightarrow> quadtree \<Rightarrow> bool" where
  "origin_rounded fl (Leaf b c ps) \<longleftrightarrow> fl (rect_x b) = rect_x b"
| "origin_rounded fl (Divided b c ps nw ne sw se) \<longleftrightarrow>
     fl (rect_x b) = rect_x b \<and> origin_rounded fl nw \<and> origin_rounded fl ne \<and>
     origin_rounded fl sw \<and> origin_rounded fl se"

text \<open>
  What that proof needs of the rounding: a rounded value is rounded to itself, and
  halving and rounding a width again and again ends at 0.
\<close>

definition halving_ends :: "(real \<Rightarrow> real) \<Rightarrow> bool" where
  "halving_ends fl \<longleftrightarrow>
     (\<forall>z. fl (fl z) = fl z) \<and> (\<forall>w. \<exists>n. ((\<lambda>w. fl (w / 2)) ^^ n) w = 0)"

text \<open>
  What one call \<open>insert_fl fl t p\<close> that returned \<open>(r, t')\<close> did, on a tree with
  capacities of at least 1.
\<close>

definition insert_effect :: "(real \<Rightarrow> real) \<Rightarrow> quadtree \<Rightarrow> point \<Rightarrow> bool \<Rightarrow> quadtree \<Rightarrow> bool" where
  "insert_effect fl t p r t' \<longleftrightarrow>
     cap_pos t' \<and> stays_divided t t' \<and>
     mset (all_points t') = mset (all_points t) + (if r then {#p#} else {#}) \<and>
     (r \<longrightarrow> inBoundary_fl fl t p) \<and>
     (\<not> inBoundary_fl fl t p \<longrightarrow> t' = t) \<and>
     (inBoundary_fl fl t p \<and> \<not> r \<longrightarrow> divided t')"

subsection \<open>A region far from the origin, and the smallest world\<close>

text \<open>
  At \<open>2 ^ 53 = 9007199254740992\<close> doubles are 2 apart: a region of side 2 with its
  \<open>x\<close> origin there holds one double on the \<open>x\<close> axis, and its quadrants of side 1 hold
  none, because \<open>2 ^ 53 + 1\<close> rounds to \<open>2 ^ 53\<close>. \<open>far_children c ps\<close> is what
  \<open>subdivide\<close> makes of the leaf.
\<close>

definition far_boundary :: rect where
  "far_boundary = \<lparr>rect_x = 9007199254740992, rect_y = 0, rect_width = 2, rect_height = 2\<rparr>"

definition far_p0 :: point where
  "far_p0 = \<lparr>point_x = 9007199254740992, point_y = 0, point_idx = 0\<rparr>"

definition far_p1 :: point where
  "far_p1 = \<lparr>point_x = 9007199254740992, point_y = 0, point_idx = 1\<rparr>"

definition far_children :: "nat \<Rightarrow> point list \<Rightarrow> quadtree" where
  "far_children c ps =
     Divided far_boundary c ps
       (Leaf \<lparr>rect_x = 9007199254740992, rect_y = 0, rect_width = 1, rect_height = 1\<rparr> c [])
       (Leaf \<lparr>rect_x = 9007199254740992, rect_y = 0, rect_width = 1, rect_height = 1\<rparr> c [])
       (Leaf \<lparr>rect_x = 9007199254740992, rect_y = 1, rect_width = 1, rect_height = 1\<rparr> c [])
       (Leaf \<lparr>rect_x = 9007199254740992, rect_y = 1, rect_width = 1, rect_height = 1\<rparr> c [])"

text \<open>
  \<open>tiny\<close> is the smallest positive double (\<open>Number.MIN_VALUE\<close>); half of it rounds
  to 0. An engine whose world has side \<open>tiny\<close>: the only position of the world is
  (0, 0), and the quadrants of the world have side 0. \<open>tiny_state\<close> is the state after
  two \<open>updatePeer\<close> calls with capacity 1, \<open>tiny_state_0\<close> the state after one call with
  capacity 0.
\<close>

definition tiny :: real where
  "tiny = 2 powi (- 1074)"

definition tiny_config :: "nat \<Rightarrow> config" where
  "tiny_config c = DEFAULT_CONFIG\<lparr>worldSize := tiny, capacity_ls := c\<rparr>"

definition tiny_world :: rect where
  "tiny_world = \<lparr>rect_x = 0, rect_y = 0, rect_width = tiny, rect_height = tiny\<rparr>"

definition tiny_children :: "nat \<Rightarrow> point list \<Rightarrow> quadtree" where
  "tiny_children c ps =
     Divided tiny_world c ps
       (Leaf \<lparr>rect_x = 0, rect_y = 0, rect_width = 0, rect_height = 0\<rparr> c [])
       (Leaf \<lparr>rect_x = 0, rect_y = 0, rect_width = 0, rect_height = 0\<rparr> c [])
       (Leaf \<lparr>rect_x = 0, rect_y = 0, rect_width = 0, rect_height = 0\<rparr> c [])
       (Leaf \<lparr>rect_x = 0, rect_y = 0, rect_width = 0, rect_height = 0\<rparr> c [])"

definition tiny_peer :: "nat \<Rightarrow> peer" where
  "tiny_peer i = \<lparr>peer_idx = i, peer_x = 0, peer_y = 0, peer_vx = 0, peer_vy = 0,
      peer_tdf = 1, peer_latency = 0\<rparr>"

definition tiny_calls :: "call list" where
  "tiny_calls = [UpdatePeer 0 0 0 0 0 1 0, UpdatePeer 1 0 0 0 0 1 0]"

definition tiny_state :: lightseed where
  "tiny_state =
     (LightSeed (tiny_config 1))
       \<lparr>peers := [Some (tiny_peer 0), Some (tiny_peer 1)],
        quadtree := tiny_children 1 [peer_point (tiny_peer 0)]\<rparr>"

definition tiny_state_0 :: lightseed where
  "tiny_state_0 =
     (LightSeed (tiny_config 0))
       \<lparr>peers := [Some (tiny_peer 0)], quadtree := tiny_children 0 []\<rparr>"

subsection \<open>Fifty-five records at one position of the default world\<close>

text \<open>
  The default world of side 1000 with capacity 1, and 55 participants all at (750, 750),
  each entering by one \<open>updatePeer\<close> call.
\<close>

definition crowd_config :: config where
  "crowd_config = DEFAULT_CONFIG\<lparr>capacity_ls := 1\<rparr>"

definition crowd_peer :: "nat \<Rightarrow> peer" where
  "crowd_peer i = \<lparr>peer_idx = i, peer_x = 750, peer_y = 750, peer_vx = 0, peer_vy = 0,
      peer_tdf = 1, peer_latency = 0\<rparr>"

definition crowd_point :: "nat \<Rightarrow> point" where
  "crowd_point i = \<lparr>point_x = 750, point_y = 750, point_idx = i\<rparr>"

definition crowd_call :: "nat \<Rightarrow> call" where
  "crowd_call i = UpdatePeer i 750 750 0 0 1 0"

text \<open>
  The index the rebuild makes of such records. The root holds the first, its south-east
  quadrant the second, the south-east quadrant of that one, with origin (750, 750) and
  side 250, the third; from there on every record goes to the north-west quadrant of the
  node before, which has the same origin and half the side: \<open>chain\<close>. With \<open>s\<close> true
  the node of the last record is subdivided, as a rejected insertion leaves it.
  \<open>side j\<close> is the side after \<open>j\<close> halvings, \<open>250 / 2 ^ j\<close>.
\<close>

definition crowd_rect :: "real \<Rightarrow> rect" where
  "crowd_rect w = \<lparr>rect_x = 750, rect_y = 750, rect_width = w, rect_height = w\<rparr>"

fun chain :: "bool \<Rightarrow> real \<Rightarrow> point list \<Rightarrow> quadtree" where
  "chain s w [] = Leaf (crowd_rect w) 1 []"
| "chain s w (p # ps) =
     (if ps = [] \<and> \<not> s then Leaf (crowd_rect w) 1 [p]
      else Divided (crowd_rect w) 1 [p]
        (chain s (double (w / 2)) ps)
        (Leaf \<lparr>rect_x = double (750 + double (w / 2)), rect_y = 750,
               rect_width = double (w / 2), rect_height = double (w / 2)\<rparr> 1 [])
        (Leaf \<lparr>rect_x = 750, rect_y = double (750 + double (w / 2)),
               rect_width = double (w / 2), rect_height = double (w / 2)\<rparr> 1 [])
        (Leaf \<lparr>rect_x = double (750 + double (w / 2)), rect_y = double (750 + double (w / 2)),
               rect_width = double (w / 2), rect_height = double (w / 2)\<rparr> 1 []))"

definition side :: "nat \<Rightarrow> real" where
  "side j = 125 * 2 powi (1 - int j)"

definition at_750 :: "point \<Rightarrow> bool" where
  "at_750 q \<longleftrightarrow> point_x q = 750 \<and> point_y q = 750"

fun crowd_tree :: "bool \<Rightarrow> point list \<Rightarrow> quadtree" where
  "crowd_tree s [] = Leaf world_1000 1 []"
| "crowd_tree s [p0] = Leaf world_1000 1 [p0]"
| "crowd_tree s (p0 # p1 # ps) =
     Divided world_1000 1 [p0]
       (Leaf \<lparr>rect_x = 0, rect_y = 0, rect_width = 500, rect_height = 500\<rparr> 1 [])
       (Leaf \<lparr>rect_x = 500, rect_y = 0, rect_width = 500, rect_height = 500\<rparr> 1 [])
       (Leaf \<lparr>rect_x = 0, rect_y = 500, rect_width = 500, rect_height = 500\<rparr> 1 [])
       (if ps = [] then
          Leaf \<lparr>rect_x = 500, rect_y = 500, rect_width = 500, rect_height = 500\<rparr> 1 [p1]
        else
          Divided \<lparr>rect_x = 500, rect_y = 500, rect_width = 500, rect_height = 500\<rparr> 1 [p1]
            (Leaf \<lparr>rect_x = 500, rect_y = 500, rect_width = 250, rect_height = 250\<rparr> 1 [])
            (Leaf \<lparr>rect_x = 750, rect_y = 500, rect_width = 250, rect_height = 250\<rparr> 1 [])
            (Leaf \<lparr>rect_x = 500, rect_y = 750, rect_width = 250, rect_height = 250\<rparr> 1 [])
            (chain s 250 ps))"

text \<open>
  The state after the first \<open>n\<close> calls, for \<open>n \<le> 54\<close>, and the state after all 55.
\<close>

definition crowd_run :: "nat \<Rightarrow> lightseed" where
  "crowd_run n =
     (LightSeed crowd_config)
       \<lparr>peers := map (\<lambda>i. Some (crowd_peer i)) [0..<n],
        quadtree := crowd_tree False (map crowd_point [0..<n])\<rparr>"

definition crowd_state :: lightseed where
  "crowd_state =
     (LightSeed crowd_config)
       \<lparr>peers := map (\<lambda>i. Some (crowd_peer i)) [0..<55],
        quadtree := crowd_tree True (map crowd_point [0..<54])\<rparr>"

text \<open>A record lies in the world of an engine.\<close>

definition in_world :: "lightseed \<Rightarrow> peer \<Rightarrow> bool" where
  "in_world s pr \<longleftrightarrow>
     0 \<le> peer_x pr \<and> peer_x pr < worldSize s \<and> 0 \<le> peer_y pr \<and> peer_y pr < worldSize s"

section \<open>Properties of the quadtree\<close>

subsection \<open>Unfolding \<open>insert\<close>\<close>

lemma insert_qt_outside: "\<not> inBoundary t p \<Longrightarrow> insert_qt t p = Some (False, t)"
  by (subst insert_qt.simps) simp

lemma insert_qt_push:
  "inBoundary (Leaf b c ps) p \<Longrightarrow> length ps < c \<Longrightarrow>
   insert_qt (Leaf b c ps) p = Some (True, Leaf b c (ps @ [p]))"
  by (subst insert_qt.simps) simp

lemma inBoundary_subdivide: "inBoundary (subdivide t) p = inBoundary t p"
  by (simp add: inBoundary_def subdivide_def Let_def)

lemma insert_qt_full:
  "inBoundary (Leaf b c ps) p \<Longrightarrow> \<not> length ps < c \<Longrightarrow>
   insert_qt (Leaf b c ps) p = insert_qt (subdivide (Leaf b c ps)) p"
  apply (subst insert_qt.simps [of "Leaf b c ps"])
  apply (subst insert_qt.simps [of "subdivide (Leaf b c ps)"])
  apply (simp add: inBoundary_subdivide)
  apply (simp add: subdivide_def Let_def)
  done

lemma or_chain_cases:
  assumes "do {
       (r1, a) \<leftarrow> A;
       if r1 then Some (True, K1 a)
       else do {
         (r2, b) \<leftarrow> B;
         if r2 then Some (True, K2 a b)
         else do {
           (r3, c) \<leftarrow> C;
           if r3 then Some (True, K3 a b c)
           else do {
             (r4, d) \<leftarrow> D;
             Some (r4, K4 a b c d)
           }
         }
       }
     } = Some y"
  shows "(\<exists>a. A = Some (True, a) \<and> y = (True, K1 a)) \<or>
         (\<exists>a b. A = Some (False, a) \<and> B = Some (True, b) \<and> y = (True, K2 a b)) \<or>
         (\<exists>a b c. A = Some (False, a) \<and> B = Some (False, b) \<and> C = Some (True, c) \<and>
            y = (True, K3 a b c)) \<or>
         (\<exists>a b c d r. A = Some (False, a) \<and> B = Some (False, b) \<and> C = Some (False, c) \<and>
            D = Some (r, d) \<and> y = (r, K4 a b c d))"
  using assms by (auto split: bind_splits prod.splits if_splits)

lemma insert_qt_children:
  assumes "inBoundary t p" "\<not> (length (points t) < capacity t \<and> \<not> divided t)"
    and "(if \<not> divided t then subdivide t else t) = Divided b c ps nw ne sw se"
  shows "insert_qt t p = do {
               (r1, nw') \<leftarrow> insert_qt nw p;
               if r1 then Some (True, Divided b c ps nw' ne sw se)
               else do {
                 (r2, ne') \<leftarrow> insert_qt ne p;
                 if r2 then Some (True, Divided b c ps nw' ne' sw se)
                 else do {
                   (r3, sw') \<leftarrow> insert_qt sw p;
                   if r3 then Some (True, Divided b c ps nw' ne' sw' se)
                   else do {
                     (r4, se') \<leftarrow> insert_qt se p;
                     Some (r4, Divided b c ps nw' ne' sw' se')
                   }
                 }
               }
             }"
proof -
  from assms(2) have "(length (points t) < capacity t \<and> \<not> divided t) = False" by simp
  with assms(1,3) show ?thesis
    by (subst insert_qt.simps) (simp only: not_True_eq_False if_False not_not if_True quadtree.case)
qed

lemma insert_qt_induct [consumes 1, case_names outside push nw ne sw se]:
  assumes ret: "insert_qt t p = Some (r, t')"
    and outside: "\<And>t p. \<not> inBoundary t p \<Longrightarrow> P t p False t"
    and push: "\<And>b c ps p. inBoundary (Leaf b c ps) p \<Longrightarrow> length ps < c \<Longrightarrow>
                 P (Leaf b c ps) p True (Leaf b c (ps @ [p]))"
    and nw: "\<And>t p b c ps nw ne sw se nw'.
        inBoundary t p \<Longrightarrow> \<not> (length (points t) < capacity t \<and> \<not> divided t) \<Longrightarrow>
        (if \<not> divided t then subdivide t else t) = Divided b c ps nw ne sw se \<Longrightarrow>
        insert_qt nw p = Some (True, nw') \<Longrightarrow>
        P nw p True nw' \<Longrightarrow> P t p True (Divided b c ps nw' ne sw se)"
    and ne: "\<And>t p b c ps nw ne sw se nw' ne'.
        inBoundary t p \<Longrightarrow> \<not> (length (points t) < capacity t \<and> \<not> divided t) \<Longrightarrow>
        (if \<not> divided t then subdivide t else t) = Divided b c ps nw ne sw se \<Longrightarrow>
        insert_qt nw p = Some (False, nw') \<Longrightarrow> insert_qt ne p = Some (True, ne') \<Longrightarrow>
        P nw p False nw' \<Longrightarrow> P ne p True ne' \<Longrightarrow>
        P t p True (Divided b c ps nw' ne' sw se)"
    and sw: "\<And>t p b c ps nw ne sw se nw' ne' sw'.
        inBoundary t p \<Longrightarrow> \<not> (length (points t) < capacity t \<and> \<not> divided t) \<Longrightarrow>
        (if \<not> divided t then subdivide t else t) = Divided b c ps nw ne sw se \<Longrightarrow>
        insert_qt nw p = Some (False, nw') \<Longrightarrow> insert_qt ne p = Some (False, ne') \<Longrightarrow>
        insert_qt sw p = Some (True, sw') \<Longrightarrow>
        P nw p False nw' \<Longrightarrow> P ne p False ne' \<Longrightarrow> P sw p True sw' \<Longrightarrow>
        P t p True (Divided b c ps nw' ne' sw' se)"
    and se: "\<And>t p b c ps nw ne sw se nw' ne' sw' se' r.
        inBoundary t p \<Longrightarrow> \<not> (length (points t) < capacity t \<and> \<not> divided t) \<Longrightarrow>
        (if \<not> divided t then subdivide t else t) = Divided b c ps nw ne sw se \<Longrightarrow>
        insert_qt nw p = Some (False, nw') \<Longrightarrow> insert_qt ne p = Some (False, ne') \<Longrightarrow>
        insert_qt sw p = Some (False, sw') \<Longrightarrow> insert_qt se p = Some (r, se') \<Longrightarrow>
        P nw p False nw' \<Longrightarrow> P ne p False ne' \<Longrightarrow> P sw p False sw' \<Longrightarrow>
        P se p r se' \<Longrightarrow> P t p r (Divided b c ps nw' ne' sw' se')"
  shows "P t p r t'"
proof -
  have "(\<lambda>t p y. insert_qt t p = Some y \<and> P t p (fst y) (snd y)) t p (r, t')"
  proof (rule insert_qt.raw_induct [OF _ ret])
    fix f t p y
    assume IH: "\<And>t p y. f t p = Some y \<Longrightarrow> insert_qt t p = Some y \<and> P t p (fst y) (snd y)"
    assume step: "(if \<not> inBoundary t p then Some (False, t)
      else if length (points t) < capacity t \<and> \<not> divided t
        then Some (True, Leaf (boundary t) (capacity t) (points t @ [p]))
      else
        (case (if \<not> divided t then subdivide t else t) of
           Leaf b c ps \<Rightarrow> None
         | Divided b c ps nw ne sw se \<Rightarrow>
             do {
               (r1, nw') \<leftarrow> f nw p;
               if r1 then Some (True, Divided b c ps nw' ne sw se)
               else do {
                 (r2, ne') \<leftarrow> f ne p;
                 if r2 then Some (True, Divided b c ps nw' ne' sw se)
                 else do {
                   (r3, sw') \<leftarrow> f sw p;
                   if r3 then Some (True, Divided b c ps nw' ne' sw' se)
                   else do {
                     (r4, se') \<leftarrow> f se p;
                     Some (r4, Divided b c ps nw' ne' sw' se')
                   }
                 }
               }
             })) = Some y"
    show "insert_qt t p = Some y \<and> P t p (fst y) (snd y)"
    proof (cases "\<not> inBoundary t p")
      case True
      with step outside insert_qt_outside show ?thesis by auto
    next
      case inside: False
      show ?thesis
      proof (cases "length (points t) < capacity t \<and> \<not> divided t")
        case True
        then obtain b c ps where "t = Leaf b c ps" by (cases t) auto
        with True inside step push [of b c ps p] insert_qt_push [of b c ps p]
        show ?thesis by auto
      next
        case full: False
        obtain b c ps nw ne sw se where
          d: "(if \<not> divided t then subdivide t else t) = Divided b c ps nw ne sw se"
          by (cases t) (auto simp: subdivide_def Let_def)
        from inside have ins: "inBoundary t p" by simp
        note N = nw [OF ins full d] ne [OF ins full d] sw [OF ins full d] se [OF ins full d]
        note E = insert_qt_children [OF ins full d]
        from full have "(length (points t) < capacity t \<and> \<not> divided t) = False" by simp
        with step ins d
        have "do {
               (r1, nw') \<leftarrow> f nw p;
               if r1 then Some (True, Divided b c ps nw' ne sw se)
               else do {
                 (r2, ne') \<leftarrow> f ne p;
                 if r2 then Some (True, Divided b c ps nw' ne' sw se)
                 else do {
                   (r3, sw') \<leftarrow> f sw p;
                   if r3 then Some (True, Divided b c ps nw' ne' sw' se)
                   else do {
                     (r4, se') \<leftarrow> f se p;
                     Some (r4, Divided b c ps nw' ne' sw' se')
                   }
                 }
               }
             } = Some y"
          by (simp only: not_True_eq_False if_False not_not if_True quadtree.case)
        from or_chain_cases [OF this]
        consider
          (1) nw' where "f nw p = Some (True, nw')" "y = (True, Divided b c ps nw' ne sw se)"
        | (2) nw' ne' where "f nw p = Some (False, nw')" "f ne p = Some (True, ne')"
            "y = (True, Divided b c ps nw' ne' sw se)"
        | (3) nw' ne' sw' where "f nw p = Some (False, nw')" "f ne p = Some (False, ne')"
            "f sw p = Some (True, sw')" "y = (True, Divided b c ps nw' ne' sw' se)"
        | (4) nw' ne' sw' se' r4 where "f nw p = Some (False, nw')" "f ne p = Some (False, ne')"
            "f sw p = Some (False, sw')" "f se p = Some (r4, se')"
            "y = (r4, Divided b c ps nw' ne' sw' se')"
          by blast
        then show ?thesis
        proof cases
          case 1
          from IH [OF 1(1)] have a: "insert_qt nw p = Some (True, nw')" "P nw p True nw'"
            by simp_all
          from a(1) have "insert_qt t p = Some y" by (simp add: E 1(2))
          with N(1) [OF a] 1(2) show ?thesis by simp
        next
          case 2
          from IH [OF 2(1)] have a: "insert_qt nw p = Some (False, nw')" "P nw p False nw'"
            by simp_all
          from IH [OF 2(2)] have b: "insert_qt ne p = Some (True, ne')" "P ne p True ne'"
            by simp_all
          from a(1) b(1) have "insert_qt t p = Some y" by (simp add: E 2(3))
          with N(2) [OF a(1) b(1) a(2) b(2)] 2(3) show ?thesis by simp
        next
          case 3
          from IH [OF 3(1)] have a: "insert_qt nw p = Some (False, nw')" "P nw p False nw'"
            by simp_all
          from IH [OF 3(2)] have b: "insert_qt ne p = Some (False, ne')" "P ne p False ne'"
            by simp_all
          from IH [OF 3(3)] have c: "insert_qt sw p = Some (True, sw')" "P sw p True sw'"
            by simp_all
          from a(1) b(1) c(1) have "insert_qt t p = Some y" by (simp add: E 3(4))
          with N(3) [OF a(1) b(1) c(1) a(2) b(2) c(2)] 3(4) show ?thesis by simp
        next
          case 4
          from IH [OF 4(1)] have a: "insert_qt nw p = Some (False, nw')" "P nw p False nw'"
            by simp_all
          from IH [OF 4(2)] have b: "insert_qt ne p = Some (False, ne')" "P ne p False ne'"
            by simp_all
          from IH [OF 4(3)] have c: "insert_qt sw p = Some (False, sw')" "P sw p False sw'"
            by simp_all
          from IH [OF 4(4)] have d': "insert_qt se p = Some (r4, se')" "P se p r4 se'"
            by simp_all
          from a(1) b(1) c(1) d'(1) have "insert_qt t p = Some y" by (simp add: E 4(5))
          with N(4) [OF a(1) b(1) c(1) d'(1) a(2) b(2) c(2) d'(2)] 4(5) show ?thesis by simp
        qed
      qed
    qed
  qed
  then show ?thesis by simp
qed

lemma inBoundary_cong: "boundary t = boundary u \<Longrightarrow> inBoundary t p = inBoundary u p"
  by (simp add: inBoundary_def)

lemma target_cases:
  assumes "\<not> (length (points t) < capacity t \<and> \<not> divided t)"
    and "(if \<not> divided t then subdivide t else t) = Divided b c ps nw ne sw se"
  shows "t = Divided b c ps nw ne sw se \<or>
         (t = Leaf b c ps \<and> \<not> length ps < c \<and> subdivide (Leaf b c ps) = Divided b c ps nw ne sw se)"
  using assms by (cases t) (auto simp: subdivide_def Let_def)

lemma insert_qt_frame:
  assumes "insert_qt t p = Some (r, t')"
  shows "boundary t' = boundary t \<and> capacity t' = capacity t \<and> (r \<longrightarrow> inBoundary t p) \<and>
     mset (all_points t') = mset (all_points t) + (if r then {#p#} else {#})"
  using assms
proof (induct rule: insert_qt_induct)
  case (outside t p) then show ?case by simp
next
  case (push b c ps p) then show ?case by simp
next
  case (nw t p b c ps nw ne sw se nw')
  from target_cases [OF nw(2,3)] nw(1,5) show ?case
    by (auto simp: subdivide_def QuadTree_def Let_def)
next
  case (ne t p b c ps nw ne sw se nw' ne')
  from target_cases [OF ne(2,3)] ne(1,6,7) show ?case
    by (auto simp: subdivide_def QuadTree_def Let_def)
next
  case (sw t p b c ps nw ne sw se nw' ne' sw')
  from target_cases [OF sw(2,3)] sw(1,7,8,9) show ?case
    by (auto simp: subdivide_def QuadTree_def Let_def)
next
  case (se t p b c ps nw ne sw se nw' ne' sw' se' r)
  from target_cases [OF se(2,3)] se(1,8,9,10,11) show ?case
    by (auto simp: subdivide_def QuadTree_def Let_def)
qed

lemma insert_qt_boundary: "insert_qt t p = Some (r, t') \<Longrightarrow> boundary t' = boundary t"
  using insert_qt_frame by blast

lemma insert_qt_capacity: "insert_qt t p = Some (r, t') \<Longrightarrow> capacity t' = capacity t"
  using insert_qt_frame by blast

lemma insert_qt_True_inside: "insert_qt t p = Some (True, t') \<Longrightarrow> inBoundary t p"
  using insert_qt_frame by blast

lemma insert_qt_all_points:
  "insert_qt t p = Some (r, t') \<Longrightarrow>
     mset (all_points t') = mset (all_points t) + (if r then {#p#} else {#})"
  using insert_qt_frame by blast

lemma shape_target:
  assumes "shape C t" "\<not> (length (points t) < capacity t \<and> \<not> divided t)"
    and "(if \<not> divided t then subdivide t else t) = Divided b c ps nw ne sw se"
  shows "shape C (Divided b c ps nw ne sw se)"
  using target_cases [OF assms(2,3)] assms(1)
  by (auto simp: subdivide_def QuadTree_def Let_def)

lemma insert_qt_shape:
  assumes "insert_qt t p = Some (r, t')"
  shows "shape C t \<Longrightarrow> shape C t'"
  using assms
proof (induct rule: insert_qt_induct)
  case (outside t p) then show ?case by simp
next
  case (push b c ps p) then show ?case by simp
next
  case (nw t p b c ps nw ne sw se nw')
  from shape_target [OF nw.prems nw.hyps(2,3)] nw.hyps(5) show ?case by simp
next
  case (ne t p b c ps nw ne sw se nw' ne')
  from shape_target [OF ne.prems ne.hyps(2,3)] ne.hyps(6,7) show ?case by simp
next
  case (sw t p b c ps nw ne sw se nw' ne' sw')
  from shape_target [OF sw.prems sw.hyps(2,3)] sw.hyps(7,8,9) show ?case by simp
next
  case (se t p b c ps nw ne sw se nw' ne' sw' se' r)
  from shape_target [OF se.prems se.hyps(2,3)] se.hyps(8,9,10,11) show ?case by simp
qed

lemma stays_divided_refl: "stays_divided t t"
  by (induct t) auto

lemma stays_divided_frame:
  "stays_divided u v \<Longrightarrow>
     boundary v = boundary u \<and> capacity v = capacity u \<and> prefix (points u) (points v)"
  by (cases u; cases v) auto

lemma stays_divided_trans: "stays_divided t u \<Longrightarrow> stays_divided u v \<Longrightarrow> stays_divided t v"
proof (induct t arbitrary: u v)
  case (Leaf b c ps)
  from stays_divided_frame [OF Leaf(2)] Leaf(1) show ?case by auto
next
  case (Divided b c ps nw ne sw se)
  then show ?case by (cases u; cases v) auto
qed

lemma insert_qt_stays_divided:
  assumes "insert_qt t p = Some (r, t')"
  shows "stays_divided t t'"
  using assms
proof (induct rule: insert_qt_induct)
  case (outside t p) then show ?case by (simp add: stays_divided_refl)
next
  case (push b c ps p) then show ?case by simp
next
  case (nw t p b c ps nw ne sw se nw')
  from target_cases [OF nw(2,3)] nw(5) show ?case
    by (auto simp: stays_divided_refl)
next
  case (ne t p b c ps nw ne sw se nw' ne')
  from target_cases [OF ne(2,3)] ne(6,7) show ?case
    by (auto simp: stays_divided_refl)
next
  case (sw t p b c ps nw ne sw se nw' ne' sw')
  from target_cases [OF sw(2,3)] sw(7,8,9) show ?case
    by (auto simp: stays_divided_refl)
next
  case (se t p b c ps nw ne sw se nw' ne' sw' se' r)
  from target_cases [OF se(2,3)] se(8,9,10,11) show ?case
    by (auto simp: stays_divided_refl)
qed

lemma bounded_target:
  assumes "bounded t" "\<not> (length (points t) < capacity t \<and> \<not> divided t)"
    and "(if \<not> divided t then subdivide t else t) = Divided b c ps nw ne sw se"
  shows "bounded (Divided b c ps nw ne sw se) \<and> boundary t = b"
  using target_cases [OF assms(2,3)] assms(1)
  by (auto simp: subdivide_def QuadTree_def Let_def inBoundary_def)

lemma bounded_DividedI:
  assumes "bounded (Divided b c ps nw ne sw se)" "inBoundary (Divided b c ps nw ne sw se) p"
    and "bounded nw'" "bounded ne'" "bounded sw'" "bounded se'"
    and "set (all_points nw') \<union> set (all_points ne') \<union> set (all_points sw') \<union> set (all_points se')
         \<subseteq> insert p (set (all_points nw) \<union> set (all_points ne) \<union> set (all_points sw) \<union> set (all_points se))"
  shows "bounded (Divided b c ps nw' ne' sw' se')"
  using assms by (auto simp: inBoundary_def)

lemma insert_qt_set_points:
  "insert_qt t p = Some (r, t') \<Longrightarrow> set (all_points t') \<subseteq> insert p (set (all_points t))"
  by (drule insert_qt_all_points, drule arg_cong [where f = set_mset]) (auto split: if_splits)

lemma insert_qt_bounded:
  assumes "insert_qt t p = Some (r, t')"
  shows "bounded t \<Longrightarrow> bounded t'"
  using assms
proof (induct rule: insert_qt_induct)
  case (outside t p) then show ?case by simp
next
  case (push b c ps p) then show ?case by (auto simp: inBoundary_def)
next
  case (nw t p b c ps nw ne sw se nw')
  note B = bounded_target [OF nw.prems nw.hyps(2,3)]
  from B nw.hyps(1) have i: "inBoundary (Divided b c ps nw ne sw se) p"
    by (simp add: inBoundary_def)
  from B have "bounded nw'" "bounded ne" "bounded sw" "bounded se"
    using nw.hyps(5) by simp_all
  from bounded_DividedI [OF conjunct1 [OF B] i this] insert_qt_set_points [OF nw.hyps(4)]
  show ?case by auto
next
  case (ne t p b c ps nw ne sw se nw' ne')
  note B = bounded_target [OF ne.prems ne.hyps(2,3)]
  from B ne.hyps(1) have i: "inBoundary (Divided b c ps nw ne sw se) p"
    by (simp add: inBoundary_def)
  from B have "bounded nw'" "bounded ne'" "bounded sw" "bounded se"
    using ne.hyps(6,7) by simp_all
  from bounded_DividedI [OF conjunct1 [OF B] i this]
    insert_qt_set_points [OF ne.hyps(4)] insert_qt_set_points [OF ne.hyps(5)]
  show ?case by auto
next
  case (sw t p b c ps nw ne sw se nw' ne' sw')
  note B = bounded_target [OF sw.prems sw.hyps(2,3)]
  from B sw.hyps(1) have i: "inBoundary (Divided b c ps nw ne sw se) p"
    by (simp add: inBoundary_def)
  from B have "bounded nw'" "bounded ne'" "bounded sw'" "bounded se"
    using sw.hyps(7,8,9) by simp_all
  from bounded_DividedI [OF conjunct1 [OF B] i this]
    insert_qt_set_points [OF sw.hyps(4)] insert_qt_set_points [OF sw.hyps(5)]
    insert_qt_set_points [OF sw.hyps(6)]
  show ?case by auto
next
  case (se t p b c ps nw ne sw se nw' ne' sw' se' r)
  note B = bounded_target [OF se.prems se.hyps(2,3)]
  from B se.hyps(1) have i: "inBoundary (Divided b c ps nw ne sw se) p"
    by (simp add: inBoundary_def)
  from B have "bounded nw'" "bounded ne'" "bounded sw'" "bounded se'"
    using se.hyps(8,9,10,11) by simp_all
  from bounded_DividedI [OF conjunct1 [OF B] i this]
    insert_qt_set_points [OF se.hyps(4)] insert_qt_set_points [OF se.hyps(5)]
    insert_qt_set_points [OF se.hyps(6)] insert_qt_set_points [OF se.hyps(7)]
  show ?case by auto
qed

lemma square_le_of_abs_le: "\<bar>a\<bar> \<le> \<bar>b\<bar> \<Longrightarrow> a * a \<le> b * (b::real)"
  using abs_le_square_iff [of a b] by (simp add: power2_eq_square)

lemma inside_in_range_intersects:
  assumes "inBoundary t p" "pointInRange p rg"
  shows "intersects t rg"
proof -
  let ?x = "rect_x (boundary t)" and ?y = "rect_y (boundary t)"
  let ?w = "rect_width (boundary t)" and ?h = "rect_height (boundary t)"
  let ?dx = "max ?x (min (range_cx rg) (?x + ?w)) - range_cx rg"
  let ?dy = "max ?y (min (range_cy rg) (?y + ?h)) - range_cy rg"
  from assms(1) have "\<bar>?dx\<bar> \<le> \<bar>point_x p - range_cx rg\<bar>"
    by (auto simp: inBoundary_def max_def min_def)
  then have x: "?dx * ?dx \<le> (point_x p - range_cx rg) * (point_x p - range_cx rg)"
    by (rule square_le_of_abs_le)
  from assms(1) have "\<bar>?dy\<bar> \<le> \<bar>point_y p - range_cy rg\<bar>"
    by (auto simp: inBoundary_def max_def min_def)
  then have y: "?dy * ?dy \<le> (point_y p - range_cy rg) * (point_y p - range_cy rg)"
    by (rule square_le_of_abs_le)
  from assms(2) have "(point_x p - range_cx rg) * (point_x p - range_cx rg) +
      (point_y p - range_cy rg) * (point_y p - range_cy rg) \<le> range_r rg * range_r rg"
    by (simp add: pointInRange_def Let_def)
  with x y have "?dx * ?dx + ?dy * ?dy \<le> range_r rg * range_r rg" by linarith
  then show ?thesis by (simp add: intersects_def Let_def)
qed

lemma bounded_all_inside: "bounded t \<Longrightarrow> p \<in> set (all_points t) \<Longrightarrow> inBoundary t p"
  by (cases t) auto

lemma pruned_none:
  assumes "bounded t" "\<not> intersects t rg"
  shows "filter (\<lambda>p. pointInRange p rg) (all_points t) = []"
proof -
  have "\<not> pointInRange p rg" if "p \<in> set (all_points t)" for p
    using inside_in_range_intersects [OF bounded_all_inside [OF assms(1) that]] assms(2)
    by blast
  then show ?thesis by (simp add: filter_empty_conv)
qed

lemma query_mset:
  "bounded t \<Longrightarrow>
   mset (query t rg found) = mset found + filter_mset (\<lambda>p. pointInRange p rg) (mset (all_points t))"
proof (induct t arbitrary: found)
  case (Leaf b c ps)
  show ?case
  proof (cases "intersects (Leaf b c ps) rg")
    case True then show ?thesis by simp
  next
    case False
    from pruned_none [OF Leaf.prems False] have "filter (\<lambda>p. pointInRange p rg) ps = []" by simp
    then have "filter_mset (\<lambda>p. pointInRange p rg) (mset ps) = {#}"
      by (metis mset_filter mset.simps(1))
    with False show ?thesis by simp
  qed
next
  case (Divided b c ps nw ne sw se)
  let ?t = "Divided b c ps nw ne sw se"
  show ?case
  proof (cases "intersects ?t rg")
    case True
    from Divided.prems have "bounded nw" "bounded ne" "bounded sw" "bounded se" by simp_all
    with True Divided.hyps show ?thesis by (simp add: ac_simps)
  next
    case False
    from pruned_none [OF Divided.prems False]
    have "filter_mset (\<lambda>p. pointInRange p rg) (mset (all_points ?t)) = {#}"
      by (metis mset_filter mset.simps(1))
    with False show ?thesis by simp
  qed
qed

lemma pointInRange_dist:
  assumes "0 \<le> range_r rg"
  shows "pointInRange p rg \<longleftrightarrow>
     sqrt ((point_x p - range_cx rg)\<^sup>2 + (point_y p - range_cy rg)\<^sup>2) \<le> range_r rg"
proof -
  have "sqrt ((point_x p - range_cx rg)\<^sup>2 + (point_y p - range_cy rg)\<^sup>2) \<le> range_r rg
    \<longleftrightarrow> (point_x p - range_cx rg)\<^sup>2 + (point_y p - range_cy rg)\<^sup>2 \<le> (range_r rg)\<^sup>2"
    using assms real_sqrt_le_iff [of "(point_x p - range_cx rg)\<^sup>2 + (point_y p - range_cy rg)\<^sup>2" "(range_r rg)\<^sup>2"]
    by simp
  then show ?thesis by (simp add: pointInRange_def Let_def power2_eq_square)
qed

lemma insert_qt_Divided:
  "inBoundary (Divided b c ps nw ne sw se) p \<Longrightarrow>
   insert_qt (Divided b c ps nw ne sw se) p = do {
               (r1, nw') \<leftarrow> insert_qt nw p;
               if r1 then Some (True, Divided b c ps nw' ne sw se)
               else do {
                 (r2, ne') \<leftarrow> insert_qt ne p;
                 if r2 then Some (True, Divided b c ps nw' ne' sw se)
                 else do {
                   (r3, sw') \<leftarrow> insert_qt sw p;
                   if r3 then Some (True, Divided b c ps nw' ne' sw' se)
                   else do {
                     (r4, se') \<leftarrow> insert_qt se p;
                     Some (r4, Divided b c ps nw' ne' sw' se')
                   }
                 }
               }
             }"
  by (rule insert_qt_children) simp_all

lemmas insert_qt_eval = insert_qt_outside insert_qt_push insert_qt_full insert_qt_Divided
  inBoundary_def subdivide_def QuadTree_def Let_def

lemma insert_seq_invariants:
  "insert_seq t qs = Some (t', acc) \<Longrightarrow>
     (shape C t \<longrightarrow> shape C t') \<and> stays_divided t t' \<and> (bounded t \<longrightarrow> bounded t') \<and>
     boundary t' = boundary t \<and> capacity t' = capacity t \<and>
     mset (all_points t') = mset (all_points t) + mset acc"
proof (induct qs arbitrary: t t' acc)
  case Nil
  then show ?case by (simp add: stays_divided_refl)
next
  case (Cons p qs)
  from Cons.prems obtain ok t1 t2 acc2 where
    a: "insert_qt t p = Some (ok, t1)" and b: "insert_seq t1 qs = Some (t2, acc2)"
    and c: "t' = t2" "acc = (if ok then p # acc2 else acc2)"
    by (auto split: bind_splits prod.splits)
  note I = Cons.hyps [OF b]
  from a have "stays_divided t t1" by (rule insert_qt_stays_divided)
  with I have "stays_divided t t2" by (blast intro: stays_divided_trans)
  moreover from a I have "shape C t \<longrightarrow> shape C t2" by (blast dest: insert_qt_shape)
  moreover from a I have "bounded t \<longrightarrow> bounded t2" by (blast dest: insert_qt_bounded)
  moreover from a I have "boundary t2 = boundary t" "capacity t2 = capacity t"
    by (simp_all add: insert_qt_boundary insert_qt_capacity)
  moreover from insert_qt_all_points [OF a] I
  have "mset (all_points t2) = mset (all_points t) + mset (if ok then p # acc2 else acc2)"
    by simp
  ultimately show ?case using c by simp
qed

lemma example_insert_seq:
  "insert_seq (QuadTree example_boundary 1) example_points =
     Some (example_tree, [example_p0, example_p1])"
  by (simp add: example_boundary_def example_points_def example_tree_def
      example_p0_def example_p1_def example_p2_def insert_qt_eval)

lemma example_insert_more:
  "insert_seq example_tree [example_p3] = Some (example_tree', [example_p3])"
  by (simp add: example_boundary_def example_tree_def example_tree'_def
      example_p3_def insert_qt_eval)

subsection \<open>Tiling and termination of \<open>insert\<close>\<close>


lemma quadrants_cover:
  assumes "tiled (Divided b c ps nw ne sw se)" "inBoundary (Divided b c ps nw ne sw se) p"
  shows "inBoundary nw p \<or> inBoundary ne p \<or> inBoundary sw p \<or> inBoundary se p"
  using assms
  by (simp add: same_frame_def subdivide_def QuadTree_def Let_def inBoundary_def) argo

lemma tiled_target:
  assumes "tiled t" "\<not> (length (points t) < capacity t \<and> \<not> divided t)"
    and "(if \<not> divided t then subdivide t else t) = Divided b c ps nw ne sw se"
  shows "tiled (Divided b c ps nw ne sw se) \<and> boundary t = b \<and> capacity t = c"
  using target_cases [OF assms(2,3)] assms(1)
  by (auto simp: subdivide_def QuadTree_def Let_def same_frame_def)

lemma same_frame_insert:
  "insert_qt t p = Some (r, t') \<Longrightarrow> same_frame t u \<Longrightarrow> same_frame t' u"
  by (simp add: same_frame_def insert_qt_boundary insert_qt_capacity)

lemma insert_qt_tiled:
  assumes "insert_qt t p = Some (r, t')"
  shows "tiled t \<Longrightarrow> tiled t' \<and> r = inBoundary t p"
  using assms
proof (induct rule: insert_qt_induct)
  case (outside t p) then show ?case by simp
next
  case (push b c ps p) then show ?case by simp
next
  case (nw t p b c ps nw ne sw se nw')
  note T = tiled_target [OF nw.prems nw.hyps(2,3)]
  with nw.hyps(5) have "tiled nw'" by simp
  with T same_frame_insert [OF nw.hyps(4)] nw.hyps(1) show ?case by simp
next
  case (ne t p b c ps nw ne sw se nw' ne')
  note T = tiled_target [OF ne.prems ne.hyps(2,3)]
  with ne.hyps(6,7) have "tiled nw'" "tiled ne'" by simp_all
  with T same_frame_insert [OF ne.hyps(4)] same_frame_insert [OF ne.hyps(5)] ne.hyps(1)
  show ?case by simp
next
  case (sw t p b c ps nw ne sw se nw' ne' sw')
  note T = tiled_target [OF sw.prems sw.hyps(2,3)]
  with sw.hyps(7,8,9) have "tiled nw'" "tiled ne'" "tiled sw'" by simp_all
  with T same_frame_insert [OF sw.hyps(4)] same_frame_insert [OF sw.hyps(5)]
    same_frame_insert [OF sw.hyps(6)] sw.hyps(1)
  show ?case by simp
next
  case (se t p b c ps nw ne sw se nw' ne' sw' se' r)
  note T = tiled_target [OF se.prems se.hyps(2,3)]
  with se.hyps(8,9,10,11) have t': "tiled nw'" "tiled ne'" "tiled sw'" "tiled se'"
    and no: "\<not> inBoundary nw p" "\<not> inBoundary ne p" "\<not> inBoundary sw p"
    and r: "r = inBoundary se p" by simp_all
  from T se.hyps(1) have "inBoundary (Divided b c ps nw ne sw se) p"
    by (simp add: inBoundary_def)
  with quadrants_cover [OF conjunct1 [OF T]] no r have "r" by blast
  with t' T same_frame_insert [OF se.hyps(4)] same_frame_insert [OF se.hyps(5)]
    same_frame_insert [OF se.hyps(6)] same_frame_insert [OF se.hyps(7)] se.hyps(1)
  show ?case by simp
qed

lemma children_total:
  assumes "inBoundary (Divided b c ps nw ne sw se) p"
    and "\<exists>t'. insert_qt nw p = Some (inBoundary nw p, t')"
    and "\<exists>t'. insert_qt ne p = Some (inBoundary ne p, t')"
    and "\<exists>t'. insert_qt sw p = Some (inBoundary sw p, t')"
    and "\<exists>t'. insert_qt se p = Some (inBoundary se p, t')"
    and "inBoundary nw p \<or> inBoundary ne p \<or> inBoundary sw p \<or> inBoundary se p"
  shows "\<exists>t'. insert_qt (Divided b c ps nw ne sw se) p = Some (True, t')"
proof -
  from assms(2-5) obtain a b' c' d where
    "insert_qt nw p = Some (inBoundary nw p, a)" "insert_qt ne p = Some (inBoundary ne p, b')"
    "insert_qt sw p = Some (inBoundary sw p, c')" "insert_qt se p = Some (inBoundary se p, d)"
    by blast
  with assms(6) show ?thesis
    by (auto simp: insert_qt_Divided [OF assms(1)])
qed

lemma insert_qt_fresh:
  "1 \<le> c \<Longrightarrow> \<exists>t'. insert_qt (Leaf b c []) p = Some (inBoundary (Leaf b c []) p, t')"
  by (cases "inBoundary (Leaf b c []) p") (simp_all add: insert_qt_outside insert_qt_push)

lemma insert_qt_total:
  "tiled t \<Longrightarrow> 1 \<le> capacity t \<Longrightarrow> \<exists>t'. insert_qt t p = Some (inBoundary t p, t')"
proof (induct t)
  case (Leaf b c ps)
  show ?case
  proof (cases "inBoundary (Leaf b c ps) p")
    case False then show ?thesis by (simp add: insert_qt_outside)
  next
    case inside: True
    show ?thesis
    proof (cases "length ps < c")
      case True with inside show ?thesis by (simp add: insert_qt_push)
    next
      case False
      obtain nw ne sw se where s: "subdivide (Leaf b c ps) = Divided b c ps nw ne sw se"
        and f: "nw = Leaf (boundary nw) c []" "ne = Leaf (boundary ne) c []"
          "sw = Leaf (boundary sw) c []" "se = Leaf (boundary se) c []"
        by (simp add: subdivide_def QuadTree_def Let_def)
      from s have td: "tiled (Divided b c ps nw ne sw se)"
        by (auto simp: same_frame_def subdivide_def QuadTree_def Let_def)
      from inside have i: "inBoundary (Divided b c ps nw ne sw se) p"
        by (simp add: inBoundary_def)
      from Leaf.prems have c: "1 \<le> c" by simp
      have "\<exists>t'. insert_qt (Divided b c ps nw ne sw se) p = Some (True, t')"
        using insert_qt_fresh [OF c, of "boundary nw" p] insert_qt_fresh [OF c, of "boundary ne" p]
          insert_qt_fresh [OF c, of "boundary sw" p] insert_qt_fresh [OF c, of "boundary se" p]
          f quadrants_cover [OF td i]
        by (intro children_total [OF i]) simp_all
      with inside False s show ?thesis by (simp add: insert_qt_full)
    qed
  qed
next
  case (Divided b c ps nw ne sw se)
  let ?t = "Divided b c ps nw ne sw se"
  show ?case
  proof (cases "inBoundary ?t p")
    case False then show ?thesis by (simp add: insert_qt_outside)
  next
    case True
    from Divided.prems have "tiled nw" "tiled ne" "tiled sw" "tiled se"
      and "1 \<le> capacity nw" "1 \<le> capacity ne" "1 \<le> capacity sw" "1 \<le> capacity se"
      by (simp_all add: same_frame_def subdivide_def QuadTree_def Let_def)
    with Divided.hyps have
      "\<exists>t'. insert_qt nw p = Some (inBoundary nw p, t')"
      "\<exists>t'. insert_qt ne p = Some (inBoundary ne p, t')"
      "\<exists>t'. insert_qt sw p = Some (inBoundary sw p, t')"
      "\<exists>t'. insert_qt se p = Some (inBoundary se p, t')" by blast+
    from children_total [OF True this quadrants_cover [OF Divided.prems(1) True]] True
    show ?thesis by simp
  qed
qed

text \<open>
  With capacity 0 no leaf ever has room: over the exact reals an insertion inside the
  region subdivides without end and does not return.
\<close>

lemma tiled_target_capacity_0:
  assumes "tiled t" "capacity t = 0" "\<not> (length (points t) < capacity t \<and> \<not> divided t)"
    and "(if \<not> divided t then subdivide t else t) = Divided b c ps nw ne sw se"
  shows "tiled nw \<and> capacity nw = 0" "tiled ne \<and> capacity ne = 0"
    "tiled sw \<and> capacity sw = 0" "tiled se \<and> capacity se = 0"
  using tiled_target [OF assms(1,3,4)] assms(2)
  by (simp_all add: same_frame_def subdivide_def QuadTree_def Let_def)

lemma insert_qt_capacity_0_aux:
  assumes "insert_qt t p = Some (r, t')"
  shows "(\<not> inBoundary t p \<longrightarrow> \<not> r) \<and> \<not> (tiled t \<and> capacity t = 0 \<and> inBoundary t p)"
  using assms
proof (induct rule: insert_qt_induct)
  case (outside t p) then show ?case by simp
next
  case (push b c ps p) then show ?case by simp
next
  case (nw t p b c ps nw ne sw se nw')
  from nw.hyps(5) have "inBoundary nw p" "\<not> (tiled nw \<and> capacity nw = 0)" by auto
  with tiled_target_capacity_0(1) [OF _ _ nw.hyps(2,3)] nw.hyps(1) show ?case by blast
next
  case (ne t p b c ps nw ne sw se nw' ne')
  from ne.hyps(7) have "inBoundary ne p" "\<not> (tiled ne \<and> capacity ne = 0)" by auto
  with tiled_target_capacity_0(2) [OF _ _ ne.hyps(2,3)] ne.hyps(1) show ?case by blast
next
  case (sw t p b c ps nw ne sw se nw' ne' sw')
  from sw.hyps(9) have "inBoundary sw p" "\<not> (tiled sw \<and> capacity sw = 0)" by auto
  with tiled_target_capacity_0(3) [OF _ _ sw.hyps(2,3)] sw.hyps(1) show ?case by blast
next
  case (se t p b c ps nw ne sw se nw' ne' sw' se' r)
  have "\<not> (tiled t \<and> capacity t = 0)"
  proof
    assume a: "tiled t \<and> capacity t = 0"
    note T = tiled_target [OF conjunct1 [OF a] se.hyps(2,3)]
    note C = tiled_target_capacity_0 [OF conjunct1 [OF a] conjunct2 [OF a] se.hyps(2,3)]
    from T se.hyps(1) have "inBoundary (Divided b c ps nw ne sw se) p"
      by (simp add: inBoundary_def)
    from quadrants_cover [OF conjunct1 [OF T] this] C se.hyps(8,9,10,11)
    show False by blast
  qed
  with se.hyps(1) show ?case by simp
qed

lemma insert_qt_capacity_0:
  "tiled t \<Longrightarrow> capacity t = 0 \<Longrightarrow> inBoundary t p \<Longrightarrow> insert_qt t p = None"
  using insert_qt_capacity_0_aux [of t p] by (cases "insert_qt t p") auto

section \<open>Properties of the engine\<close>

lemma forEach_insert_Some:
  "forEach_insert q (Some pr # ps) =
     do { (ok, q') \<leftarrow> insert_qt q (peer_point pr); forEach_insert q' ps }"
  by (simp add: peer_point_def)

lemma forEach_insert_seq:
  "forEach_insert q ps = map_option fst (insert_seq q (map peer_point (live ps)))"
proof (induct ps arbitrary: q)
  case Nil show ?case by simp
next
  case (Cons a ps)
  show ?case
  proof (cases a)
    case None with Cons show ?thesis by simp
  next
    case (Some pr)
    show ?thesis
    proof (cases "insert_qt q (peer_point pr)")
      case None with \<open>a = Some pr\<close> show ?thesis
        by (simp add: forEach_insert_Some del: forEach_insert.simps)
    next
      case (Some y)
      obtain ok q' where y: "y = (ok, q')" by (cases y)
      from Cons [of q'] Some y \<open>a = Some pr\<close> show ?thesis
        by (cases "insert_seq q' (map peer_point (live ps))")
           (auto simp add: forEach_insert_Some simp del: forEach_insert.simps split: prod.splits)
    qed
  qed
qed

lemma insert_seq_tiled:
  "insert_seq t qs = Some (t', acc) \<Longrightarrow> tiled t \<Longrightarrow> tiled t'"
proof (induct qs arbitrary: t t' acc)
  case Nil then show ?case by simp
next
  case (Cons p qs)
  from Cons.prems(1) obtain ok t1 acc2 where
    a: "insert_qt t p = Some (ok, t1)" and b: "insert_seq t1 qs = Some (t', acc2)"
    by (auto split: bind_splits prod.splits)
  from insert_qt_tiled [OF a Cons.prems(2)] have "tiled t1" by simp
  from Cons.hyps [OF b this] show ?case .
qed

lemma insert_seq_total:
  "tiled t \<Longrightarrow> 1 \<le> capacity t \<Longrightarrow>
     \<exists>t'. insert_seq t qs = Some (t', filter (inBoundary t) qs)"
proof (induct qs arbitrary: t)
  case Nil then show ?case by simp
next
  case (Cons p qs)
  from insert_qt_total [OF Cons.prems, of p] obtain t1 where
    a: "insert_qt t p = Some (inBoundary t p, t1)" by blast
  from insert_qt_tiled [OF a Cons.prems(1)] have t1: "tiled t1" by simp
  from insert_qt_capacity [OF a] Cons.prems(2) have c1: "1 \<le> capacity t1" by simp
  from insert_qt_boundary [OF a] have "inBoundary t1 = inBoundary t"
    by (auto simp: inBoundary_def fun_eq_iff)
  with Cons.hyps [OF t1 c1] obtain t' where
    "insert_seq t1 qs = Some (t', filter (inBoundary t) qs)" by auto
  with a show ?case by simp
qed

lemma array_get_array_set_same: "array_get (array_set xs i v) i = Some v"
  by (simp add: array_get_def array_set_def nth_append)

lemma array_get_array_set_other: "j \<noteq> i \<Longrightarrow> array_get (array_set xs i v) j = array_get xs j"
  by (auto simp: array_get_def array_set_def nth_append nth_Cons' less_Suc_eq)

lemma set_live: "set (live ps) = {pr. Some pr \<in> set ps}"
  by (induct ps rule: live.induct) auto

lemma LightSeed_inv: "engine_inv (LightSeed cfg)"
  by (simp add: engine_inv_def derived_ok_def LightSeed_def Let_def QuadTree_def)

lemma insertPeer_inv:
  assumes "insertPeer s idx x y = Some s'" "engine_inv s"
  shows "engine_inv s'"
proof -
  from assms(1) obtain ok q where
    a: "insert_qt (quadtree s) \<lparr>point_x = x, point_y = y, point_idx = idx\<rparr> = Some (ok, q)"
    and s': "s' = s\<lparr>quadtree := q,
               peers := array_set (peers s) idx
                 \<lparr>peer_idx = idx, peer_x = x, peer_y = y, peer_vx = 0, peer_vy = 0,
                  peer_tdf = 1.0, peer_latency = 0\<rparr>\<rparr>"
    by (auto simp: insertPeer_def split: bind_splits prod.splits)
  from assms(2) insert_qt_tiled [OF a] insert_qt_bounded [OF a]
    insert_qt_boundary [OF a] insert_qt_capacity [OF a]
  show ?thesis by (simp add: s' engine_inv_def derived_ok_def)
qed

lemma updatePeer_unfold:
  "updatePeer s idx x y vx vy tdf latency = Some s' \<longleftrightarrow>
     (\<exists>q acc. insert_seq (QuadTree (boundary_ls s) (capacity_ls s))
               (map peer_point (live (array_set (peers s) idx
                 \<lparr>peer_idx = idx, peer_x = x, peer_y = y, peer_vx = vx, peer_vy = vy,
                  peer_tdf = tdf, peer_latency = latency\<rparr>))) = Some (q, acc) \<and>
        s' = s\<lparr>peers := array_set (peers s) idx
                 \<lparr>peer_idx = idx, peer_x = x, peer_y = y, peer_vx = vx, peer_vy = vy,
                  peer_tdf = tdf, peer_latency = latency\<rparr>, quadtree := q\<rparr>)"
  by (auto simp: updatePeer_def Let_def forEach_insert_seq split: bind_splits)

lemma updatePeer_inv:
  assumes "updatePeer s idx x y vx vy tdf latency = Some s'" "engine_inv s"
  shows "engine_inv s'"
proof -
  from assms(1) [unfolded updatePeer_unfold] obtain q acc pts where
    a: "insert_seq (QuadTree (boundary_ls s) (capacity_ls s)) pts = Some (q, acc)"
    and s': "quadtree s' = q" "boundary_ls s' = boundary_ls s" "capacity_ls s' = capacity_ls s"
      "derived_ok s' = derived_ok s"
    by (auto simp: derived_ok_def)
  from insert_seq_invariants [OF a] insert_seq_tiled [OF a]
  have "tiled q" "bounded q" "boundary q = boundary_ls s" "capacity q = capacity_ls s"
    by (simp_all add: QuadTree_def)
  with assms(2) s' show ?thesis by (simp add: engine_inv_def)
qed

lemma apply_call_inv: "apply_call s c = Some s' \<Longrightarrow> engine_inv s \<Longrightarrow> engine_inv s'"
  by (cases c) (auto intro: insertPeer_inv updatePeer_inv)

lemma apply_call_config:
  "apply_call s c = Some s' \<Longrightarrow> worldSize s' = worldSize s \<and> capacity_ls s' = capacity_ls s"
  by (cases c) (auto simp: insertPeer_def updatePeer_unfold split: bind_splits prod.splits)

lemma run_inv: "run s cs = Some s' \<Longrightarrow> engine_inv s \<Longrightarrow> engine_inv s'"
proof (induct cs arbitrary: s)
  case Nil then show ?case by simp
next
  case (Cons c cs)
  then show ?case by (auto split: bind_splits dest: apply_call_inv)
qed

lemma reachable_inv: "run (LightSeed cfg) cs = Some s \<Longrightarrow> engine_inv s"
  using run_inv LightSeed_inv by blast

lemma scenario_run:
  "run (LightSeed scenario_config) (scenario_inserts @ scenario_updates v lat) =
     Some (scenario_state v lat)"
  by (simp add: scenario_inserts_def scenario_updates_def scenario_state_def scenario_config_def
      scenario_peer_def DEFAULT_CONFIG_def LightSeed_def insertPeer_def updatePeer_def
      array_set_def insert_qt_eval)

lemma filter_index_take: "filter_index (\<lambda>i. i < n) xs = take n xs"
proof (induct xs rule: rev_induct)
  case Nil show ?case by (simp add: filter_index_def)
next
  case (snoc x xs)
  then show ?case by (auto simp: filter_index_def)
qed

lemma map_index_zip_from:
  "k + length xs \<le> length ys \<Longrightarrow>
     map (\<lambda>(v, i). f v (ys ! i)) (zip xs [k..<k + length xs]) =
     map (\<lambda>(v, y). f v y) (zip xs (drop k ys))"
proof (induct xs arbitrary: k)
  case Nil show ?case by simp
next
  case (Cons x xs)
  from Cons.prems have k: "k < length ys" and k': "Suc k + length xs \<le> length ys" by simp_all
  have u: "[k..<k + length (x # xs)] = k # [Suc k..<Suc k + length xs]"
    using upt_conv_Cons [of k "k + length (x # xs)"] by simp
  from k have d: "drop k ys = ys ! k # drop (Suc k) ys" by (simp add: Cons_nth_drop_Suc)
  from Cons.hyps [OF k'] show ?case by (simp only: u d zip_Cons_Cons list.map prod.case)
qed

lemma map_index_zip:
  "length xs \<le> length ys \<Longrightarrow>
     map_index (\<lambda>v i. f v (ys ! i)) xs = map (\<lambda>(v, y). f v y) (zip xs ys)"
  using map_index_zip_from [of 0 xs ys f] by (simp add: map_index_def)

lemma zip_take_left: "length ys \<le> n \<Longrightarrow> zip (take n xs) ys = zip xs ys"
proof (induct xs arbitrary: n ys)
  case Nil show ?case by simp
next
  case (Cons x xs)
  then show ?case by (cases ys; cases n) simp_all
qed

lemma foldl_add_sum: "foldl (+) a ws = a + sum_list (ws :: real list)"
  by (induct ws arbitrary: a) (simp_all add: add.assoc)

lemma weights_loop_append:
  "weights_loop s sender i k js acc = Inr ws \<Longrightarrow>
     \<exists>new. ws = acc @ new \<and> length new \<le> length js \<and>
       (\<forall>w \<in> set new. \<exists>player pr. w = weight s sender player pr)"
proof (induct js arbitrary: acc)
  case Nil then show ?case by simp
next
  case (Cons j js)
  show ?case
  proof (cases "j = i \<or> array_get (peers s) j = None")
    case True
    with Cons.prems have "weights_loop s sender i k js acc = Inr ws"
      by (auto split: if_splits)
    from Cons.hyps [OF this] show ?thesis by auto
  next
    case False
    with Cons.prems obtain pr player where
      "weights_loop s sender i k js (acc @ [weight s sender player pr]) = Inr ws"
      by (auto split: option.splits if_splits)
    from Cons.hyps [OF this] obtain new where
      n: "ws = (acc @ [weight s sender player pr]) @ new" "length new \<le> length js"
        "\<forall>w \<in> set new. \<exists>player pr. w = weight s sender player pr" by blast
    have "\<forall>w \<in> set (weight s sender player pr # new). \<exists>player pr. w = weight s sender player pr"
      using n(3) by (simp, blast)
    with n(1,2) show ?thesis
      by (intro exI [of _ "weight s sender player pr # new"]) simp
  qed
qed

lemma selectPeers_sender:
  assumes "array_get (peers s) senderIdx = Some sender"
    and "weights_loop s sender senderIdx playerIdx (peersInRange s sender) [] = Inr ws"
  shows "selectPeers s senderIdx playerIdx =
     Inr (map (\<lambda>(j, w). \<lparr>peerIdx = j, prob = code_prob s ws w\<rparr>)
            (zip (peersInRange s sender) ws), s)"
proof -
  from assms(1) have n: "length (peers s) \<noteq> 0" by (auto simp: array_get_def)
  let ?probs = "map (code_prob s ws) ws"
  from weights_loop_append [OF assms(2)] have len: "length ws \<le> length (peersInRange s sender)"
    by auto
  have "map_index (\<lambda>j i. \<lparr>peerIdx = j, prob = ?probs ! i\<rparr>) (take (length ws) (peersInRange s sender))
      = map (\<lambda>(j, p). \<lparr>peerIdx = j, prob = p\<rparr>) (zip (take (length ws) (peersInRange s sender)) ?probs)"
    by (rule map_index_zip) simp
  also have "zip (take (length ws) (peersInRange s sender)) ?probs = zip (peersInRange s sender) ?probs"
    by (rule zip_take_left) simp
  also have "map (\<lambda>(j, p). \<lparr>peerIdx = j, prob = p\<rparr>) (zip (peersInRange s sender) ?probs)
      = map (\<lambda>(j, w). \<lparr>peerIdx = j, prob = code_prob s ws w\<rparr>) (zip (peersInRange s sender) ws)"
    by (simp add: zip_map2 case_prod_unfold)
  finally have e: "map_index (\<lambda>j i. \<lparr>peerIdx = j, prob = ?probs ! i\<rparr>)
      (filter_index (\<lambda>i. i < length ws) (peersInRange s sender))
      = map (\<lambda>(j, w). \<lparr>peerIdx = j, prob = code_prob s ws w\<rparr>) (zip (peersInRange s sender) ws)"
    by (simp add: filter_index_take)
  have p: "map (\<lambda>w. (1 - epsilon s) * (w / (if foldl (+) 0 ws = 0 then 1 else foldl (+) 0 ws))
                  + epsilon s / (if length (peers s) = 0 then 1 else real (length (peers s)))) ws
           = ?probs"
    using n by (simp add: code_prob_def foldl_add_sum)
  show ?thesis
    unfolding selectPeers_def Let_def peersInRange_def [symmetric]
    by (simp only: assms option.case sum.case p e)
qed

lemma weight_pos:
  assumes "0 < d0 s" "0 < v0 s" "0 \<le> beta s"
  shows "0 < weight s sender player pr"
proof -
  let ?rel = "subtract (peer_x player, peer_y player) (peer_x pr, peer_y pr)"
  let ?dkj = "norm_vec ?rel"
  let ?skj = "if ?dkj > 0 then
                max 0 (- dot (subtract (peer_vx player, peer_vy player) (peer_vx pr, peer_vy pr)) ?rel / ?dkj)
              else 0"
  have d: "0 \<le> ?dkj" by (simp add: norm_vec_def)
  have "0 \<le> ?skj" by simp
  with assms have sp: "0 < 1 + beta s * (?skj / v0 s)"
    by (intro add_pos_nonneg mult_nonneg_nonneg divide_nonneg_pos) simp_all
  from d assms have di: "0 < 1 / (1 + ?dkj / d0 s)"
    by (intro divide_pos_pos add_pos_nonneg divide_nonneg_pos) simp_all
  have la: "0 < 1 / max (peer_latency pr) (0.001::real)" by simp
  show ?thesis
    unfolding weight_def Let_def
    using la di sp by (intro mult_pos_pos) simp_all
qed

lemma LightSeed_fields:
  "worldSize (LightSeed cfg) = worldSize cfg" "maxDepth (LightSeed cfg) = maxDepth cfg"
  "capacity_ls (LightSeed cfg) = capacity_ls cfg" "nCells (LightSeed cfg) = nCells cfg"
  "deltaT (LightSeed cfg) = deltaT cfg" "sigma (LightSeed cfg) = sigma cfg"
  "d0 (LightSeed cfg) = d0 cfg" "v0 (LightSeed cfg) = v0 cfg"
  "beta (LightSeed cfg) = beta cfg" "epsilon (LightSeed cfg) = epsilon cfg"
  "cellSize (LightSeed cfg) = worldSize cfg / 2 ^ maxDepth cfg"
  "c_ls (LightSeed cfg) = nCells cfg * (worldSize cfg / 2 ^ maxDepth cfg)"
  "boundary_ls (LightSeed cfg) =
     \<lparr>rect_x = 0, rect_y = 0, rect_width = worldSize cfg, rect_height = worldSize cfg\<rparr>"
  "peers (LightSeed cfg) = []"
  by (simp_all add: LightSeed_def Let_def)

lemmas engine_eval = LightSeed_def DEFAULT_CONFIG_def insertPeer_def updatePeer_def
  array_set_def array_get_def new_peer_def world_1000_def insert_qt_eval

lemma two_peers_run: "run (LightSeed DEFAULT_CONFIG) two_peers_calls = Some two_peers_state"
  by (simp add: two_peers_calls_def two_peers_state_def engine_eval)

lemma sparse_run: "run (LightSeed DEFAULT_CONFIG) sparse_calls = Some sparse_state"
  by (simp add: sparse_calls_def sparse_state_def engine_eval)

lemma stale_run: "run (LightSeed DEFAULT_CONFIG) stale_calls = Some stale_state"
  by (simp add: stale_calls_def stale_state_def engine_eval)

lemma two_peers_candidates: "peersInRange two_peers_state (new_peer 0 100 100) = [0, 1]"
  by (simp add: peersInRange_def two_peers_state_def LightSeed_def DEFAULT_CONFIG_def
      new_peer_def world_1000_def intersects_def pointInRange_def Let_def)

lemma sparse_candidates: "peersInRange sparse_state (new_peer 2 150 100) = [0, 2]"
  by (simp add: peersInRange_def sparse_state_def LightSeed_def DEFAULT_CONFIG_def
      new_peer_def world_1000_def intersects_def pointInRange_def Let_def)

lemma stale_candidates: "peersInRange stale_state (new_peer 0 10 10) = [1, 0]"
  by (simp add: peersInRange_def stale_state_def LightSeed_def DEFAULT_CONFIG_def
      new_peer_def world_1000_def intersects_def pointInRange_def Let_def)

lemma scenario_candidates:
  "peersInRange (scenario_state v lat) (scenario_peer v lat 0 100 100 0.9) = [0, 1]"
  by (simp add: peersInRange_def scenario_state_def scenario_config_def scenario_peer_def
      LightSeed_def DEFAULT_CONFIG_def intersects_def pointInRange_def Let_def)

lemma code_prob_single:
  "w \<noteq> 0 \<Longrightarrow> code_prob s [w] w = 1 - epsilon s + epsilon s / real (length (peers s))"
  by (simp add: code_prob_def)

lemma scenario_fields:
  "capacity_ls (scenario_state v lat) = 4" "worldSize (scenario_state v lat) = 800"
  "epsilon (scenario_state v lat) = 1 / 20" "d0 (scenario_state v lat) = 100"
  "v0 (scenario_state v lat) = 5" "beta (scenario_state v lat) = 1"
  "sigma (scenario_state v lat) = 1 / 10"
  "peers (scenario_state v lat) =
     [Some (scenario_peer v lat 0 100 100 0.9), Some (scenario_peer v lat 1 150 100 1),
      Some (scenario_peer v lat 2 100 200 1), Some (scenario_peer v lat 3 500 500 1)]"
  by (simp_all add: scenario_state_def scenario_config_def LightSeed_fields DEFAULT_CONFIG_def)

lemma two_peers_fields:
  "capacity_ls two_peers_state = 4" "worldSize two_peers_state = 1000"
  "peers two_peers_state = [Some (new_peer 0 100 100), Some (new_peer 1 150 100)]"
  by (simp_all add: two_peers_state_def LightSeed_fields DEFAULT_CONFIG_def)

lemma selectPeers_error:
  assumes "array_get (peers s) senderIdx = Some sender"
    and "weights_loop s sender senderIdx playerIdx (peersInRange s sender) [] = Inl e"
  shows "selectPeers s senderIdx playerIdx = Inl e"
  unfolding selectPeers_def Let_def peersInRange_def [symmetric]
  by (simp only: assms option.case sum.case)

lemma selectPeers_InrE:
  assumes "selectPeers s senderIdx playerIdx = Inr (res, s')"
    and "array_get (peers s) senderIdx = Some sender"
  obtains ws where
    "weights_loop s sender senderIdx playerIdx (peersInRange s sender) [] = Inr ws"
    "res = map (\<lambda>(j, w). \<lparr>peerIdx = j, prob = code_prob s ws w\<rparr>) (zip (peersInRange s sender) ws)"
    "length ws \<le> length (peersInRange s sender)"
    "\<forall>w \<in> set ws. \<exists>player pr. w = weight s sender player pr"
proof (cases "weights_loop s sender senderIdx playerIdx (peersInRange s sender) []")
  case (Inl e)
  from selectPeers_error [OF assms(2) Inl] assms(1) show ?thesis by simp
next
  case (Inr ws)
  from selectPeers_sender [OF assms(2) Inr] assms(1) weights_loop_append [OF Inr] that [OF Inr]
  show ?thesis by auto
qed

lemma map_snd_zip_short: "length ys \<le> length xs \<Longrightarrow> map snd (zip xs ys) = ys"
  by (simp add: map_snd_zip_take)

lemma member_le_sum_list_pos:
  "\<forall>w \<in> set ws. 0 < w \<Longrightarrow> w \<in> set ws \<Longrightarrow> 0 < sum_list ws \<and> w \<le> sum_list (ws :: real list)"
proof (induct ws)
  case Nil then show ?case by simp
next
  case (Cons a ws)
  have "0 \<le> sum_list ws" using Cons.prems(1) by (intro sum_list_nonneg) auto
  with Cons show ?case by (cases "w \<in> set ws") (auto intro: add_pos_nonneg)
qed

lemma code_prob_bounds:
  assumes "0 \<le> epsilon s" "epsilon s \<le> 1" "\<forall>w \<in> set ws. 0 < w" "w \<in> set ws"
    and "1 \<le> length (peers s)"
  shows "epsilon s / real (length (peers s)) \<le> code_prob s ws w \<and>
         0 \<le> code_prob s ws w \<and> code_prob s ws w \<le> 1"
proof -
  let ?S = "sum_list ws" and ?N = "real (length (peers s))"
  from member_le_sum_list_pos [OF assms(3,4)] have S: "0 < ?S" "w \<le> ?S" by simp_all
  from assms(3,4) have w: "0 < w" by simp
  from S w have q: "0 \<le> w / ?S" "w / ?S \<le> 1" by simp_all
  from assms(5) have N: "1 \<le> ?N" by simp
  with assms(1,2) have e: "0 \<le> epsilon s / ?N" "epsilon s / ?N \<le> epsilon s"
    by (simp_all add: divide_le_eq mult_le_cancel_left1)
  from assms(2) have e1: "0 \<le> 1 - epsilon s" by simp
  have m: "0 \<le> (1 - epsilon s) * (w / ?S)" "(1 - epsilon s) * (w / ?S) \<le> 1 - epsilon s"
    using mult_nonneg_nonneg [OF e1 q(1)] mult_left_le [OF q(2) e1] by simp_all
  from S have "code_prob s ws w = (1 - epsilon s) * (w / ?S) + epsilon s / ?N"
    by (simp add: code_prob_def)
  with e m show ?thesis by linarith
qed

lemma sparse_fields:
  "epsilon sparse_state = 1 / 20" "d0 sparse_state = 100" "v0 sparse_state = 5"
  "beta sparse_state = 1" "sigma sparse_state = 1 / 10"
  "peers sparse_state = [Some (new_peer 0 100 100), None, Some (new_peer 2 150 100)]"
  by (simp_all add: sparse_state_def LightSeed_fields DEFAULT_CONFIG_def)

lemma sparse_weights:
  "weights_loop sparse_state (new_peer 2 150 100) 2 2
     (peersInRange sparse_state (new_peer 2 150 100)) [] = Inr [sparse_weight]"
  by (simp add: sparse_candidates) (simp add: sparse_fields array_get_def sparse_weight_def)

lemma sparse_weight_pos: "0 < sparse_weight"
  unfolding sparse_weight_def by (rule weight_pos) (simp_all add: sparse_fields)

lemma sparse_select:
  "selectPeers sparse_state 2 2 = Inr ([\<lparr>peerIdx = 0, prob = 29 / 30\<rparr>], sparse_state)"
proof -
  have s: "array_get (peers sparse_state) 2 = Some (new_peer 2 150 100)"
    by (simp add: sparse_fields array_get_def)
  from sparse_weight_pos have "code_prob sparse_state [sparse_weight] sparse_weight = 29 / 30"
    by (simp add: code_prob_single sparse_fields)
  with selectPeers_sender [OF s sparse_weights] show ?thesis
    by (simp add: sparse_candidates)
qed

lemma pointInRange_abs_dist:
  assumes "pointInRange p rg"
  shows "sqrt ((point_x p - range_cx rg)\<^sup>2 + (point_y p - range_cy rg)\<^sup>2) \<le> \<bar>range_r rg\<bar>"
proof -
  from assms have "(point_x p - range_cx rg)\<^sup>2 + (point_y p - range_cy rg)\<^sup>2 \<le> \<bar>range_r rg\<bar>\<^sup>2"
    by (simp add: pointInRange_def Let_def power2_eq_square)
  then show ?thesis by (intro real_le_lsqrt) simp_all
qed

lemma query_sound:
  assumes "bounded t" "p \<in> set (query t rg [])"
  shows "p \<in> set (all_points t) \<and> pointInRange p rg"
proof -
  from assms(2) have "p \<in># mset (query t rg [])" by simp
  with query_mset [OF assms(1), of rg "[]"] show ?thesis by simp
qed

lemma ids_ok_array_set:
  "ids_ok ps \<Longrightarrow> peer_idx r = i \<Longrightarrow> ids_ok (array_set ps i r)"
  unfolding ids_ok_def
  by (metis array_get_array_set_other array_get_array_set_same option.inject)

lemma apply_call_ids: "apply_call s c = Some s' \<Longrightarrow> ids_ok (peers s) \<Longrightarrow> ids_ok (peers s')"
  by (cases c)
     (auto simp: insertPeer_def updatePeer_unfold intro!: ids_ok_array_set
           split: bind_splits prod.splits)

lemma run_ids: "run s cs = Some s' \<Longrightarrow> ids_ok (peers s) \<Longrightarrow> ids_ok (peers s')"
proof (induct cs arbitrary: s)
  case Nil then show ?case by simp
next
  case (Cons c cs)
  then show ?case by (auto split: bind_splits dest: apply_call_ids)
qed

lemma reachable_ids: "run (LightSeed cfg) cs = Some s \<Longrightarrow> ids_ok (peers s)"
  using run_ids [of "LightSeed cfg" cs s]
  by (simp add: ids_ok_def LightSeed_fields array_get_def)

lemma insert_seq_accepted: "insert_seq t qs = Some (t', acc) \<Longrightarrow> set acc \<subseteq> set qs"
proof (induct qs arbitrary: t t' acc)
  case Nil then show ?case by simp
next
  case (Cons p qs)
  from Cons.prems obtain ok t1 acc2 where
    "insert_seq t1 qs = Some (t', acc2)" "acc = (if ok then p # acc2 else acc2)"
    by (auto split: bind_splits prod.splits)
  with Cons.hyps [of t1 t' acc2] show ?case by auto
qed

lemma live_array_get: "pr \<in> set (live ps) \<Longrightarrow> \<exists>i. array_get ps i = Some pr"
  by (auto simp: set_live array_get_def in_set_conv_nth)

text \<open>After every \<open>updatePeer\<close> no index entry is stale.\<close>

lemma updatePeer_synced:
  assumes "run (LightSeed cfg) calls = Some s"
    and "updatePeer s idx x y vx vy tdf latency = Some s'"
  shows "index_synced s'"
proof -
  let ?ps = "array_set (peers s) idx
                 \<lparr>peer_idx = idx, peer_x = x, peer_y = y, peer_vx = vx, peer_vy = vy,
                  peer_tdf = tdf, peer_latency = latency\<rparr>"
  from assms(2) [unfolded updatePeer_unfold] obtain q acc where
    a: "insert_seq (QuadTree (boundary_ls s) (capacity_ls s)) (map peer_point (live ?ps))
          = Some (q, acc)"
    and s': "quadtree s' = q" "peers s' = ?ps" by auto
  from reachable_ids [OF assms(1)] have ok: "ids_ok ?ps" by (intro ids_ok_array_set) simp_all
  from insert_seq_invariants [OF a] have "mset (all_points q) = mset acc"
    by (simp add: QuadTree_def)
  then have "set (all_points q) = set acc" by (metis set_mset_mset)
  with insert_seq_accepted [OF a] have sub: "set (all_points q) \<subseteq> peer_point ` set (live ?ps)"
    by simp
  show ?thesis
    unfolding index_synced_def s'
  proof
    fix p assume "p \<in> set (all_points q)"
    with sub obtain pr where pr: "pr \<in> set (live ?ps)" "p = peer_point pr" by blast
    from live_array_get [OF pr(1)] obtain i where i: "array_get ?ps i = Some pr" by blast
    with ok have "peer_idx pr = i" by (simp add: ids_ok_def)
    with i pr(2) show "\<exists>pr. array_get ?ps (point_idx p) = Some pr \<and>
        peer_x pr = point_x p \<and> peer_y pr = point_y p"
      by (simp add: peer_point_def)
  qed
qed

lemma scenario_select:
  "selectPeers (scenario_state v lat) 0 0 =
     Inr ([\<lparr>peerIdx = 0, prob = 77 / 80\<rparr>], scenario_state v lat)"
proof -
  let ?S = "scenario_state v lat"
  let ?w = "weight ?S (scenario_peer v lat 0 100 100 0.9) (scenario_peer v lat 0 100 100 0.9)
              (scenario_peer v lat 1 150 100 1)"
  have s: "array_get (peers ?S) 0 = Some (scenario_peer v lat 0 100 100 0.9)"
    by (simp add: scenario_fields array_get_def)
  have w: "weights_loop ?S (scenario_peer v lat 0 100 100 0.9) 0 0
             (peersInRange ?S (scenario_peer v lat 0 100 100 0.9)) [] = Inr [?w]"
    by (simp add: scenario_candidates) (simp add: scenario_fields array_get_def)
  have "0 < ?w" by (rule weight_pos) (simp_all add: scenario_fields)
  then have "code_prob ?S [?w] ?w = 77 / 80"
    by (simp add: code_prob_single scenario_fields)
  with selectPeers_sender [OF s w] show ?thesis by (simp add: scenario_candidates)
qed

lemma scenario_horizon: "horizon (scenario_state v lat) = 50"
  by (simp add: horizon_def scenario_state_def scenario_config_def LightSeed_fields
      DEFAULT_CONFIG_def)

lemma scenario_synced: "index_synced (scenario_state v lat)"
  by (simp add: index_synced_def scenario_state_def array_get_def scenario_peer_def)

lemma stale_fields:
  "epsilon stale_state = 1 / 20" "d0 stale_state = 100" "v0 stale_state = 5"
  "beta stale_state = 1" "sigma stale_state = 1 / 10"
  "peers stale_state = [Some (new_peer 0 10 10), Some (new_peer 1 900 900)]"
  by (simp_all add: stale_state_def LightSeed_fields DEFAULT_CONFIG_def)

lemma stale_select:
  "selectPeers stale_state 0 0 = Inr ([\<lparr>peerIdx = 1, prob = 39 / 40\<rparr>], stale_state)"
proof -
  let ?w = "weight stale_state (new_peer 0 10 10) (new_peer 0 10 10) (new_peer 1 900 900)"
  have s: "array_get (peers stale_state) 0 = Some (new_peer 0 10 10)"
    by (simp add: stale_fields array_get_def)
  have w: "weights_loop stale_state (new_peer 0 10 10) 0 0
             (peersInRange stale_state (new_peer 0 10 10)) [] = Inr [?w]"
    by (simp add: stale_candidates) (simp add: stale_fields array_get_def)
  have "0 < ?w" by (rule weight_pos) (simp_all add: stale_fields)
  then have "code_prob stale_state [?w] ?w = 39 / 40"
    by (simp add: code_prob_single stale_fields)
  with selectPeers_sender [OF s w] show ?thesis by (simp add: stale_candidates)
qed

section \<open>Properties under rounding\<close>

subsection \<open>What a call of \<open>insert\<close> that returns has done, for any rounding\<close>

lemma insert_fl_outside: "\<not> inBoundary_fl fl t p \<Longrightarrow> insert_fl fl t p = Some (False, t)"
  by (subst insert_fl.simps) simp

lemma insert_fl_push:
  "inBoundary_fl fl (Leaf b c ps) p \<Longrightarrow> length ps < c \<Longrightarrow>
   insert_fl fl (Leaf b c ps) p = Some (True, Leaf b c (ps @ [p]))"
  by (subst insert_fl.simps) simp

lemma inBoundary_fl_subdivide: "inBoundary_fl fl (subdivide_fl fl t) p = inBoundary_fl fl t p"
  by (simp add: inBoundary_fl_def subdivide_fl_def Let_def)

lemma insert_fl_full:
  "inBoundary_fl fl (Leaf b c ps) p \<Longrightarrow> \<not> length ps < c \<Longrightarrow>
   insert_fl fl (Leaf b c ps) p = insert_fl fl (subdivide_fl fl (Leaf b c ps)) p"
  apply (subst insert_fl.simps [of fl "Leaf b c ps"])
  apply (subst insert_fl.simps [of fl "subdivide_fl fl (Leaf b c ps)"])
  apply (simp add: inBoundary_fl_subdivide)
  apply (simp add: subdivide_fl_def Let_def)
  done

lemma insert_fl_Divided:
  "inBoundary_fl fl (Divided b c ps nw ne sw se) p \<Longrightarrow>
   insert_fl fl (Divided b c ps nw ne sw se) p = do {
               (r1, nw') \<leftarrow> insert_fl fl nw p;
               if r1 then Some (True, Divided b c ps nw' ne sw se)
               else do {
                 (r2, ne') \<leftarrow> insert_fl fl ne p;
                 if r2 then Some (True, Divided b c ps nw' ne' sw se)
                 else do {
                   (r3, sw') \<leftarrow> insert_fl fl sw p;
                   if r3 then Some (True, Divided b c ps nw' ne' sw' se)
                   else do {
                     (r4, se') \<leftarrow> insert_fl fl se p;
                     Some (r4, Divided b c ps nw' ne' sw' se')
                   }
                 }
               }
             }"
  by (subst insert_fl.simps) simp

lemma insert_fl_children:
  assumes "inBoundary_fl fl t p" "\<not> (length (points t) < capacity t \<and> \<not> divided t)"
    and "(if \<not> divided t then subdivide_fl fl t else t) = Divided b c ps nw ne sw se"
  shows "insert_fl fl t p = do {
               (r1, nw') \<leftarrow> insert_fl fl nw p;
               if r1 then Some (True, Divided b c ps nw' ne sw se)
               else do {
                 (r2, ne') \<leftarrow> insert_fl fl ne p;
                 if r2 then Some (True, Divided b c ps nw' ne' sw se)
                 else do {
                   (r3, sw') \<leftarrow> insert_fl fl sw p;
                   if r3 then Some (True, Divided b c ps nw' ne' sw' se)
                   else do {
                     (r4, se') \<leftarrow> insert_fl fl se p;
                     Some (r4, Divided b c ps nw' ne' sw' se')
                   }
                 }
               }
             }"
proof -
  from assms(2) have "(length (points t) < capacity t \<and> \<not> divided t) = False" by simp
  with assms(1,3) show ?thesis
    by (subst insert_fl.simps) (simp only: not_True_eq_False if_False not_not if_True quadtree.case)
qed

lemma insert_fl_induct [consumes 1, case_names outside push nw ne sw se]:
  assumes ret: "insert_fl fl t p = Some (r, t')"
    and outside: "\<And>fl t p. \<not> inBoundary_fl fl t p \<Longrightarrow> P fl t p False t"
    and push: "\<And>fl b c ps p. inBoundary_fl fl (Leaf b c ps) p \<Longrightarrow> length ps < c \<Longrightarrow>
                 P fl (Leaf b c ps) p True (Leaf b c (ps @ [p]))"
    and nw: "\<And>fl t p b c ps nw ne sw se nw'.
        inBoundary_fl fl t p \<Longrightarrow> \<not> (length (points t) < capacity t \<and> \<not> divided t) \<Longrightarrow>
        (if \<not> divided t then subdivide_fl fl t else t) = Divided b c ps nw ne sw se \<Longrightarrow>
        insert_fl fl nw p = Some (True, nw') \<Longrightarrow>
        P fl nw p True nw' \<Longrightarrow> P fl t p True (Divided b c ps nw' ne sw se)"
    and ne: "\<And>fl t p b c ps nw ne sw se nw' ne'.
        inBoundary_fl fl t p \<Longrightarrow> \<not> (length (points t) < capacity t \<and> \<not> divided t) \<Longrightarrow>
        (if \<not> divided t then subdivide_fl fl t else t) = Divided b c ps nw ne sw se \<Longrightarrow>
        insert_fl fl nw p = Some (False, nw') \<Longrightarrow> insert_fl fl ne p = Some (True, ne') \<Longrightarrow>
        P fl nw p False nw' \<Longrightarrow> P fl ne p True ne' \<Longrightarrow>
        P fl t p True (Divided b c ps nw' ne' sw se)"
    and sw: "\<And>fl t p b c ps nw ne sw se nw' ne' sw'.
        inBoundary_fl fl t p \<Longrightarrow> \<not> (length (points t) < capacity t \<and> \<not> divided t) \<Longrightarrow>
        (if \<not> divided t then subdivide_fl fl t else t) = Divided b c ps nw ne sw se \<Longrightarrow>
        insert_fl fl nw p = Some (False, nw') \<Longrightarrow> insert_fl fl ne p = Some (False, ne') \<Longrightarrow>
        insert_fl fl sw p = Some (True, sw') \<Longrightarrow>
        P fl nw p False nw' \<Longrightarrow> P fl ne p False ne' \<Longrightarrow> P fl sw p True sw' \<Longrightarrow>
        P fl t p True (Divided b c ps nw' ne' sw' se)"
    and se: "\<And>fl t p b c ps nw ne sw se nw' ne' sw' se' r.
        inBoundary_fl fl t p \<Longrightarrow> \<not> (length (points t) < capacity t \<and> \<not> divided t) \<Longrightarrow>
        (if \<not> divided t then subdivide_fl fl t else t) = Divided b c ps nw ne sw se \<Longrightarrow>
        insert_fl fl nw p = Some (False, nw') \<Longrightarrow> insert_fl fl ne p = Some (False, ne') \<Longrightarrow>
        insert_fl fl sw p = Some (False, sw') \<Longrightarrow> insert_fl fl se p = Some (r, se') \<Longrightarrow>
        P fl nw p False nw' \<Longrightarrow> P fl ne p False ne' \<Longrightarrow> P fl sw p False sw' \<Longrightarrow>
        P fl se p r se' \<Longrightarrow> P fl t p r (Divided b c ps nw' ne' sw' se')"
  shows "P fl t p r t'"
proof -
  have "(\<lambda>fl t p y. insert_fl fl t p = Some y \<and> P fl t p (fst y) (snd y)) fl t p (r, t')"
  proof (rule insert_fl.raw_induct [OF _ ret])
    fix f fl t p y
    assume IH: "\<And>fl t p y. f fl t p = Some y \<Longrightarrow> insert_fl fl t p = Some y \<and> P fl t p (fst y) (snd y)"
    assume step: "(if \<not> inBoundary_fl fl t p then Some (False, t)
      else if length (points t) < capacity t \<and> \<not> divided t
        then Some (True, Leaf (boundary t) (capacity t) (points t @ [p]))
      else
        (case (if \<not> divided t then subdivide_fl fl t else t) of
           Leaf b c ps \<Rightarrow> None
         | Divided b c ps nw ne sw se \<Rightarrow>
             do {
               (r1, nw') \<leftarrow> f fl nw p;
               if r1 then Some (True, Divided b c ps nw' ne sw se)
               else do {
                 (r2, ne') \<leftarrow> f fl ne p;
                 if r2 then Some (True, Divided b c ps nw' ne' sw se)
                 else do {
                   (r3, sw') \<leftarrow> f fl sw p;
                   if r3 then Some (True, Divided b c ps nw' ne' sw' se)
                   else do {
                     (r4, se') \<leftarrow> f fl se p;
                     Some (r4, Divided b c ps nw' ne' sw' se')
                   }
                 }
               }
             })) = Some y"
    show "insert_fl fl t p = Some y \<and> P fl t p (fst y) (snd y)"
    proof (cases "\<not> inBoundary_fl fl t p")
      case True
      with step outside insert_fl_outside show ?thesis by auto
    next
      case inside: False
      show ?thesis
      proof (cases "length (points t) < capacity t \<and> \<not> divided t")
        case True
        then obtain b c ps where "t = Leaf b c ps" by (cases t) auto
        with True inside step push [of fl b c ps p] insert_fl_push [of fl b c ps p]
        show ?thesis by auto
      next
        case full: False
        obtain b c ps nw ne sw se where
          d: "(if \<not> divided t then subdivide_fl fl t else t) = Divided b c ps nw ne sw se"
          by (cases t) (auto simp: subdivide_fl_def Let_def)
        from inside have ins: "inBoundary_fl fl t p" by simp
        note N = nw [OF ins full d] ne [OF ins full d] sw [OF ins full d] se [OF ins full d]
        note E = insert_fl_children [OF ins full d]
        from full have "(length (points t) < capacity t \<and> \<not> divided t) = False" by simp
        with step ins d
        have "do {
               (r1, nw') \<leftarrow> f fl nw p;
               if r1 then Some (True, Divided b c ps nw' ne sw se)
               else do {
                 (r2, ne') \<leftarrow> f fl ne p;
                 if r2 then Some (True, Divided b c ps nw' ne' sw se)
                 else do {
                   (r3, sw') \<leftarrow> f fl sw p;
                   if r3 then Some (True, Divided b c ps nw' ne' sw' se)
                   else do {
                     (r4, se') \<leftarrow> f fl se p;
                     Some (r4, Divided b c ps nw' ne' sw' se')
                   }
                 }
               }
             } = Some y"
          by (simp only: not_True_eq_False if_False not_not if_True quadtree.case)
        from or_chain_cases [OF this]
        consider
          (1) nw' where "f fl nw p = Some (True, nw')" "y = (True, Divided b c ps nw' ne sw se)"
        | (2) nw' ne' where "f fl nw p = Some (False, nw')" "f fl ne p = Some (True, ne')"
            "y = (True, Divided b c ps nw' ne' sw se)"
        | (3) nw' ne' sw' where "f fl nw p = Some (False, nw')" "f fl ne p = Some (False, ne')"
            "f fl sw p = Some (True, sw')" "y = (True, Divided b c ps nw' ne' sw' se)"
        | (4) nw' ne' sw' se' r4 where "f fl nw p = Some (False, nw')" "f fl ne p = Some (False, ne')"
            "f fl sw p = Some (False, sw')" "f fl se p = Some (r4, se')"
            "y = (r4, Divided b c ps nw' ne' sw' se')"
          by blast
        then show ?thesis
        proof cases
          case 1
          from IH [OF 1(1)] have a: "insert_fl fl nw p = Some (True, nw')" "P fl nw p True nw'"
            by simp_all
          from a(1) have "insert_fl fl t p = Some y" by (simp add: E 1(2))
          with N(1) [OF a] 1(2) show ?thesis by simp
        next
          case 2
          from IH [OF 2(1)] have a: "insert_fl fl nw p = Some (False, nw')" "P fl nw p False nw'"
            by simp_all
          from IH [OF 2(2)] have b: "insert_fl fl ne p = Some (True, ne')" "P fl ne p True ne'"
            by simp_all
          from a(1) b(1) have "insert_fl fl t p = Some y" by (simp add: E 2(3))
          with N(2) [OF a(1) b(1) a(2) b(2)] 2(3) show ?thesis by simp
        next
          case 3
          from IH [OF 3(1)] have a: "insert_fl fl nw p = Some (False, nw')" "P fl nw p False nw'"
            by simp_all
          from IH [OF 3(2)] have b: "insert_fl fl ne p = Some (False, ne')" "P fl ne p False ne'"
            by simp_all
          from IH [OF 3(3)] have c: "insert_fl fl sw p = Some (True, sw')" "P fl sw p True sw'"
            by simp_all
          from a(1) b(1) c(1) have "insert_fl fl t p = Some y" by (simp add: E 3(4))
          with N(3) [OF a(1) b(1) c(1) a(2) b(2) c(2)] 3(4) show ?thesis by simp
        next
          case 4
          from IH [OF 4(1)] have a: "insert_fl fl nw p = Some (False, nw')" "P fl nw p False nw'"
            by simp_all
          from IH [OF 4(2)] have b: "insert_fl fl ne p = Some (False, ne')" "P fl ne p False ne'"
            by simp_all
          from IH [OF 4(3)] have c: "insert_fl fl sw p = Some (False, sw')" "P fl sw p False sw'"
            by simp_all
          from IH [OF 4(4)] have d': "insert_fl fl se p = Some (r4, se')" "P fl se p r4 se'"
            by simp_all
          from a(1) b(1) c(1) d'(1) have "insert_fl fl t p = Some y" by (simp add: E 4(5))
          with N(4) [OF a(1) b(1) c(1) d'(1) a(2) b(2) c(2) d'(2)] 4(5) show ?thesis by simp
        qed
      qed
    qed
  qed
  then show ?thesis by simp
qed

lemma target_fl_cases:
  assumes "\<not> (length (points t) < capacity t \<and> \<not> divided t)"
    and "(if \<not> divided t then subdivide_fl fl t else t) = Divided b c ps nw ne sw se"
  shows "t = Divided b c ps nw ne sw se \<or>
         (t = Leaf b c ps \<and> \<not> length ps < c \<and> subdivide_fl fl (Leaf b c ps) = Divided b c ps nw ne sw se)"
  using assms by (cases t) (auto simp: subdivide_fl_def Let_def)

lemma insert_fl_frame:
  assumes "insert_fl fl t p = Some (r, t')"
  shows "boundary t' = boundary t \<and> capacity t' = capacity t \<and> (r \<longrightarrow> inBoundary_fl fl t p) \<and>
     mset (all_points t') = mset (all_points t) + (if r then {#p#} else {#})"
  using assms
proof (induct rule: insert_fl_induct)
  case (outside fl t p) then show ?case by simp
next
  case (push fl b c ps p) then show ?case by simp
next
  case (nw fl t p b c ps nw ne sw se nw')
  from target_fl_cases [OF nw(2,3)] nw(1,5) show ?case
    by (auto simp: subdivide_fl_def QuadTree_def Let_def)
next
  case (ne fl t p b c ps nw ne sw se nw' ne')
  from target_fl_cases [OF ne(2,3)] ne(1,6,7) show ?case
    by (auto simp: subdivide_fl_def QuadTree_def Let_def)
next
  case (sw fl t p b c ps nw ne sw se nw' ne' sw')
  from target_fl_cases [OF sw(2,3)] sw(1,7,8,9) show ?case
    by (auto simp: subdivide_fl_def QuadTree_def Let_def)
next
  case (se fl t p b c ps nw ne sw se nw' ne' sw' se' r)
  from target_fl_cases [OF se(2,3)] se(1,8,9,10,11) show ?case
    by (auto simp: subdivide_fl_def QuadTree_def Let_def)
qed

lemma insert_fl_stays_divided:
  assumes "insert_fl fl t p = Some (r, t')"
  shows "stays_divided t t'"
  using assms
proof (induct rule: insert_fl_induct)
  case (outside fl t p) then show ?case by (simp add: stays_divided_refl)
next
  case (push fl b c ps p) then show ?case by simp
next
  case (nw fl t p b c ps nw ne sw se nw')
  from target_fl_cases [OF nw(2,3)] nw(5) show ?case
    by (auto simp: stays_divided_refl)
next
  case (ne fl t p b c ps nw ne sw se nw' ne')
  from target_fl_cases [OF ne(2,3)] ne(6,7) show ?case
    by (auto simp: stays_divided_refl)
next
  case (sw fl t p b c ps nw ne sw se nw' ne' sw')
  from target_fl_cases [OF sw(2,3)] sw(7,8,9) show ?case
    by (auto simp: stays_divided_refl)
next
  case (se fl t p b c ps nw ne sw se nw' ne' sw' se' r)
  from target_fl_cases [OF se(2,3)] se(8,9,10,11) show ?case
    by (auto simp: stays_divided_refl)
qed

lemma insert_fl_inside_False:
  assumes "insert_fl fl t p = Some (r, t')"
  shows "inBoundary_fl fl t p \<and> \<not> r \<longrightarrow>
           divided t' \<and> \<not> (length (points t) < capacity t \<and> \<not> divided t)"
  using assms
proof (induct rule: insert_fl_induct)
  case (outside fl t p) then show ?case by simp
next
  case (push fl b c ps p) then show ?case by simp
next
  case (nw fl t p b c ps nw ne sw se nw') then show ?case by simp
next
  case (ne fl t p b c ps nw ne sw se nw' ne') then show ?case by simp
next
  case (sw fl t p b c ps nw ne sw se nw' ne' sw') then show ?case by simp
next
  case (se fl t p b c ps nw ne sw se nw' ne' sw' se' r) then show ?case by simp
qed

lemma insert_fl_outside_same:
  "insert_fl fl t p = Some (r, t') \<Longrightarrow> \<not> inBoundary_fl fl t p \<Longrightarrow> t' = t \<and> \<not> r"
  by (simp add: insert_fl_outside)

subsection \<open>With capacities of at least 1 \<open>insert\<close> returns, for any rounding\<close>

text \<open>
  The recursion into the four fresh children of a full leaf ends at once when they have
  room, so the call on a tree follows the tree.
\<close>

lemma insert_effect_fresh:
  assumes "1 \<le> c"
  shows "\<exists>r t'. insert_fl fl (Leaf b' c []) p = Some (r, t') \<and>
           insert_effect fl (Leaf b' c []) p r t'"
proof (cases "inBoundary_fl fl (Leaf b' c []) p")
  case True
  with assms show ?thesis by (auto simp add: insert_fl_push insert_effect_def)
next
  case False
  with assms show ?thesis by (auto simp add: insert_fl_outside insert_effect_def)
qed

lemma insert_effect_children:
  assumes i: "inBoundary_fl fl (Divided b c ps nw ne sw se) p" and c: "1 \<le> c"
    and 1: "insert_fl fl nw p = Some (r1, nw')" "insert_effect fl nw p r1 nw'"
    and 2: "insert_fl fl ne p = Some (r2, ne')" "insert_effect fl ne p r2 ne'"
    and 3: "insert_fl fl sw p = Some (r3, sw')" "insert_effect fl sw p r3 sw'"
    and 4: "insert_fl fl se p = Some (r4, se')" "insert_effect fl se p r4 se'"
    and cp: "cap_pos nw" "cap_pos ne" "cap_pos sw" "cap_pos se"
  shows "\<exists>r t'. insert_fl fl (Divided b c ps nw ne sw se) p = Some (r, t') \<and>
           insert_effect fl (Divided b c ps nw ne sw se) p r t'"
proof -
  note R = stays_divided_refl
  consider (a) "r1" | (b) "\<not> r1" "r2" | (c) "\<not> r1" "\<not> r2" "r3" | (d) "\<not> r1" "\<not> r2" "\<not> r3"
    by blast
  then show ?thesis
  proof cases
    case a
    with i c 1 cp show ?thesis
      by (auto simp add: insert_fl_Divided [OF i] insert_effect_def R)
  next
    case b
    with i c 1 2 cp show ?thesis
      by (auto simp add: insert_fl_Divided [OF i] insert_effect_def R)
  next
    case c
    with i \<open>1 \<le> c\<close> 1 2 3 cp show ?thesis
      by (auto simp add: insert_fl_Divided [OF i] insert_effect_def R)
  next
    case d
    with i c 1 2 3 4 cp show ?thesis
      by (auto simp add: insert_fl_Divided [OF i] insert_effect_def R)
  qed
qed

lemma insert_fl_total:
  "cap_pos t \<Longrightarrow> \<exists>r t'. insert_fl fl t p = Some (r, t') \<and> insert_effect fl t p r t'"
proof (induct t)
  case (Leaf b c ps)
  then have c: "1 \<le> c" by simp
  show ?case
  proof (cases "inBoundary_fl fl (Leaf b c ps) p")
    case False
    with c show ?thesis by (auto simp add: insert_fl_outside insert_effect_def stays_divided_refl)
  next
    case inside: True
    show ?thesis
    proof (cases "length ps < c")
      case True
      with inside c show ?thesis by (auto simp add: insert_fl_push insert_effect_def)
    next
      case False
      obtain nw ne sw se where s: "subdivide_fl fl (Leaf b c ps) = Divided b c ps nw ne sw se"
        and f: "nw = Leaf (boundary nw) c []" "ne = Leaf (boundary ne) c []"
          "sw = Leaf (boundary sw) c []" "se = Leaf (boundary se) c []"
        by (simp add: subdivide_fl_def QuadTree_def Let_def)
      from inside have i: "inBoundary_fl fl (Divided b c ps nw ne sw se) p"
        by (simp add: inBoundary_fl_def)
      from insert_effect_fresh [OF c, of fl "boundary nw" p] f(1) obtain r1 nw' where
        1: "insert_fl fl nw p = Some (r1, nw')" "insert_effect fl nw p r1 nw'" by auto
      from insert_effect_fresh [OF c, of fl "boundary ne" p] f(2) obtain r2 ne' where
        2: "insert_fl fl ne p = Some (r2, ne')" "insert_effect fl ne p r2 ne'" by auto
      from insert_effect_fresh [OF c, of fl "boundary sw" p] f(3) obtain r3 sw' where
        3: "insert_fl fl sw p = Some (r3, sw')" "insert_effect fl sw p r3 sw'" by auto
      from insert_effect_fresh [OF c, of fl "boundary se" p] f(4) obtain r4 se' where
        4: "insert_fl fl se p = Some (r4, se')" "insert_effect fl se p r4 se'" by auto
      have cp: "cap_pos nw" "cap_pos ne" "cap_pos sw" "cap_pos se"
        using c by (subst f, simp)+
      from insert_effect_children [OF i c 1 2 3 4 cp] obtain r t' where
        r: "insert_fl fl (Divided b c ps nw ne sw se) p = Some (r, t')"
        and e: "insert_effect fl (Divided b c ps nw ne sw se) p r t'" by blast
      from f have pts: "all_points (Divided b c ps nw ne sw se) = ps"
        by (metis all_points.simps append_Nil2)
      from e have sd: "stays_divided (Divided b c ps nw ne sw se) t'"
        by (simp add: insert_effect_def)
      from stays_divided_frame [OF sd] sd have "stays_divided (Leaf b c ps) t'" "divided t'"
        by (cases t'; simp)+
      with e pts inside i have "insert_effect fl (Leaf b c ps) p r t'"
        by (simp add: insert_effect_def)
      with r s inside False show ?thesis by (simp add: insert_fl_full)
    qed
  qed
next
  case (Divided b c ps nw ne sw se)
  let ?t = "Divided b c ps nw ne sw se"
  from Divided.prems have c: "1 \<le> c"
    and cp: "cap_pos nw" "cap_pos ne" "cap_pos sw" "cap_pos se" by simp_all
  show ?case
  proof (cases "inBoundary_fl fl ?t p")
    case False
    with Divided.prems show ?thesis
      by (auto simp add: insert_fl_outside insert_effect_def stays_divided_refl)
  next
    case True
    from Divided.hyps(1) [OF cp(1)] obtain r1 nw' where
      1: "insert_fl fl nw p = Some (r1, nw')" "insert_effect fl nw p r1 nw'" by blast
    from Divided.hyps(2) [OF cp(2)] obtain r2 ne' where
      2: "insert_fl fl ne p = Some (r2, ne')" "insert_effect fl ne p r2 ne'" by blast
    from Divided.hyps(3) [OF cp(3)] obtain r3 sw' where
      3: "insert_fl fl sw p = Some (r3, sw')" "insert_effect fl sw p r3 sw'" by blast
    from Divided.hyps(4) [OF cp(4)] obtain r4 se' where
      4: "insert_fl fl se p = Some (r4, se')" "insert_effect fl se p r4 se'" by blast
    from insert_effect_children [OF True c 1 2 3 4 cp] show ?thesis .
  qed
qed

lemma insert_seq_fl_total:
  "cap_pos t \<Longrightarrow> \<exists>t' acc. insert_seq_fl fl t qs = Some (t', acc) \<and> cap_pos t'"
proof (induct qs arbitrary: t)
  case Nil then show ?case by simp
next
  case (Cons p qs)
  from insert_fl_total [OF Cons.prems, of fl p] obtain r t1 where
    a: "insert_fl fl t p = Some (r, t1)" and "cap_pos t1" by (auto simp: insert_effect_def)
  from Cons.hyps [OF this(2)] obtain t' acc where
    "insert_seq_fl fl t1 qs = Some (t', acc)" "cap_pos t'" by blast
  with a show ?case by simp
qed

lemma insert_seq_fl_points:
  "insert_seq_fl fl t qs = Some (t', acc) \<Longrightarrow>
     boundary t' = boundary t \<and> capacity t' = capacity t \<and>
     mset (all_points t') = mset (all_points t) + mset acc \<and> mset acc \<subseteq># mset qs"
proof (induct qs arbitrary: t t' acc)
  case Nil then show ?case by simp
next
  case (Cons p qs)
  from Cons.prems obtain ok t1 acc2 where
    a: "insert_fl fl t p = Some (ok, t1)" and b: "insert_seq_fl fl t1 qs = Some (t', acc2)"
    and c: "acc = (if ok then p # acc2 else acc2)"
    by (auto split: bind_splits prod.splits)
  from insert_fl_frame [OF a] Cons.hyps [OF b] c show ?case
    by (auto intro: subset_mset.order_trans)
qed

subsection \<open>Without rounding it is the exact model\<close>

lemma inBoundary_fl_exact: "inBoundary_fl (\<lambda>x. x) t p = inBoundary t p"
  by (simp add: inBoundary_fl_def inBoundary_def)

lemma subdivide_fl_exact: "subdivide_fl (\<lambda>x. x) t = subdivide t"
  by (simp add: subdivide_fl_def subdivide_def)

lemma insert_fl_exact: "cap_pos t \<Longrightarrow> insert_fl (\<lambda>x. x) t p = insert_qt t p"
proof (induct t)
  case (Leaf b c ps)
  then have c: "1 \<le> c" by simp
  show ?case
  proof (cases "inBoundary (Leaf b c ps) p")
    case False
    then show ?thesis by (simp add: insert_fl_outside insert_qt_outside inBoundary_fl_exact)
  next
    case inside: True
    show ?thesis
    proof (cases "length ps < c")
      case True
      with inside show ?thesis by (simp add: insert_fl_push insert_qt_push inBoundary_fl_exact)
    next
      case False
      obtain nw ne sw se where s: "subdivide (Leaf b c ps) = Divided b c ps nw ne sw se"
        and f: "nw = Leaf (boundary nw) c []" "ne = Leaf (boundary ne) c []"
          "sw = Leaf (boundary sw) c []" "se = Leaf (boundary se) c []"
        by (simp add: subdivide_def QuadTree_def Let_def)
      have fresh: "insert_fl (\<lambda>x. x) (Leaf b' c []) p = insert_qt (Leaf b' c []) p" for b'
        using c by (cases "inBoundary (Leaf b' c []) p")
          (simp_all add: insert_fl_outside insert_qt_outside insert_fl_push insert_qt_push
            inBoundary_fl_exact)
      from fresh [of "boundary nw"] fresh [of "boundary ne"] fresh [of "boundary sw"]
        fresh [of "boundary se"] f
      have e: "insert_fl (\<lambda>x. x) nw p = insert_qt nw p" "insert_fl (\<lambda>x. x) ne p = insert_qt ne p"
        "insert_fl (\<lambda>x. x) sw p = insert_qt sw p" "insert_fl (\<lambda>x. x) se p = insert_qt se p"
        by simp_all
      from inside have i: "inBoundary (Divided b c ps nw ne sw se) p"
        by (simp add: inBoundary_def)
      then have i': "inBoundary_fl (\<lambda>x. x) (Divided b c ps nw ne sw se) p"
        by (simp add: inBoundary_fl_exact)
      have "insert_fl (\<lambda>x. x) (Divided b c ps nw ne sw se) p =
            insert_qt (Divided b c ps nw ne sw se) p"
        by (simp only: insert_fl_Divided [OF i'] insert_qt_Divided [OF i] e)
      with inside False s show ?thesis
        by (simp add: insert_fl_full insert_qt_full inBoundary_fl_exact subdivide_fl_exact)
    qed
  qed
next
  case (Divided b c ps nw ne sw se)
  let ?t = "Divided b c ps nw ne sw se"
  show ?case
  proof (cases "inBoundary ?t p")
    case False
    then show ?thesis by (simp add: insert_fl_outside insert_qt_outside inBoundary_fl_exact)
  next
    case True
    then have i': "inBoundary_fl (\<lambda>x. x) ?t p" by (simp add: inBoundary_fl_exact)
    from Divided have e: "insert_fl (\<lambda>x. x) nw p = insert_qt nw p"
      "insert_fl (\<lambda>x. x) ne p = insert_qt ne p"
      "insert_fl (\<lambda>x. x) sw p = insert_qt sw p" "insert_fl (\<lambda>x. x) se p = insert_qt se p"
      by simp_all
    show ?thesis by (simp only: insert_fl_Divided [OF i'] insert_qt_Divided [OF True] e)
  qed
qed

lemma tiled_cap_pos: "tiled t \<Longrightarrow> 1 \<le> capacity t \<Longrightarrow> cap_pos t"
  by (induct t) (auto simp: same_frame_def subdivide_def QuadTree_def Let_def)

lemma insert_seq_fl_exact: "cap_pos t \<Longrightarrow> insert_seq_fl (\<lambda>x. x) t qs = insert_seq t qs"
proof (induct qs arbitrary: t)
  case Nil show ?case by simp
next
  case (Cons p qs)
  from insert_fl_total [OF Cons.prems, of "\<lambda>x. x" p] obtain r t1 where
    a: "insert_fl (\<lambda>x. x) t p = Some (r, t1)" and c: "cap_pos t1"
    by (auto simp: insert_effect_def)
  from a insert_fl_exact [OF Cons.prems, of p] have b: "insert_qt t p = Some (r, t1)" by simp
  from Cons.hyps [OF c] a b show ?case by simp
qed

subsection \<open>The engine under rounding\<close>

lemma forEach_insert_fl_Some:
  "forEach_insert_fl fl q (Some pr # ps) =
     do { (ok, q') \<leftarrow> insert_fl fl q (peer_point pr); forEach_insert_fl fl q' ps }"
  by (simp add: peer_point_def)

lemma forEach_insert_fl_seq:
  "forEach_insert_fl fl q ps = map_option fst (insert_seq_fl fl q (map peer_point (live ps)))"
proof (induct ps arbitrary: q)
  case Nil show ?case by simp
next
  case (Cons a ps)
  show ?case
  proof (cases a)
    case None with Cons show ?thesis by simp
  next
    case (Some pr)
    show ?thesis
    proof (cases "insert_fl fl q (peer_point pr)")
      case None with \<open>a = Some pr\<close> show ?thesis
        by (simp add: forEach_insert_fl_Some del: forEach_insert_fl.simps)
    next
      case (Some y)
      obtain ok q' where y: "y = (ok, q')" by (cases y)
      from Cons [of q'] Some y \<open>a = Some pr\<close> show ?thesis
        by (cases "insert_seq_fl fl q' (map peer_point (live ps))")
           (auto simp add: forEach_insert_fl_Some simp del: forEach_insert_fl.simps
              split: prod.splits)
    qed
  qed
qed

lemma updatePeer_fl_unfold:
  "updatePeer_fl fl s idx x y vx vy tdf latency = Some s' \<longleftrightarrow>
     (\<exists>q acc. insert_seq_fl fl (QuadTree (boundary_ls s) (capacity_ls s))
               (map peer_point (live (array_set (peers s) idx
                 \<lparr>peer_idx = idx, peer_x = x, peer_y = y, peer_vx = vx, peer_vy = vy,
                  peer_tdf = tdf, peer_latency = latency\<rparr>))) = Some (q, acc) \<and>
        s' = s\<lparr>peers := array_set (peers s) idx
                 \<lparr>peer_idx = idx, peer_x = x, peer_y = y, peer_vx = vx, peer_vy = vy,
                  peer_tdf = tdf, peer_latency = latency\<rparr>, quadtree := q\<rparr>)"
  by (auto simp: updatePeer_fl_def Let_def forEach_insert_fl_seq split: bind_splits)

lemma updatePeer_fl_exact:
  "1 \<le> capacity_ls s \<Longrightarrow>
   updatePeer_fl (\<lambda>x. x) s idx x y vx vy tdf latency = updatePeer s idx x y vx vy tdf latency"
  by (simp add: updatePeer_fl_def updatePeer_def forEach_insert_fl_seq forEach_insert_seq
      insert_seq_fl_exact QuadTree_def)

lemma apply_call_fl_config:
  "apply_call_fl fl s c = Some s' \<Longrightarrow>
     worldSize s' = worldSize s \<and> capacity_ls s' = capacity_ls s \<and> boundary_ls s' = boundary_ls s"
  by (cases c) (auto simp: insertPeer_fl_def updatePeer_fl_unfold split: bind_splits prod.splits)

lemma run_fl_config:
  "run_fl fl s cs = Some s' \<Longrightarrow>
     worldSize s' = worldSize s \<and> capacity_ls s' = capacity_ls s \<and> boundary_ls s' = boundary_ls s"
proof (induct cs arbitrary: s)
  case Nil then show ?case by simp
next
  case (Cons c cs)
  then show ?case by (auto split: bind_splits dest: apply_call_fl_config)
qed

lemma reachable_fl_boundary:
  "run_fl fl (LightSeed cfg) cs = Some s \<Longrightarrow>
     boundary_ls s = \<lparr>rect_x = 0, rect_y = 0, rect_width = worldSize s, rect_height = worldSize s\<rparr>"
  by (drule run_fl_config) (simp add: LightSeed_fields)

lemma updatePeer_exact_index:
  assumes "boundary_ls s =
      \<lparr>rect_x = 0, rect_y = 0, rect_width = worldSize s, rect_height = worldSize s\<rparr>"
    and "1 \<le> capacity_ls s"
    and "\<forall>pr \<in> set (live (array_set (peers s) idx
            \<lparr>peer_idx = idx, peer_x = x, peer_y = y, peer_vx = vx, peer_vy = vy,
             peer_tdf = tdf, peer_latency = latency\<rparr>)).
           0 \<le> peer_x pr \<and> peer_x pr < worldSize s \<and> 0 \<le> peer_y pr \<and> peer_y pr < worldSize s"
  shows "\<exists>s'. updatePeer s idx x y vx vy tdf latency = Some s' \<and>
           mset (all_points (quadtree s')) = mset (map peer_point (live (peers s')))"
proof -
  let ?ps = "array_set (peers s) idx
             \<lparr>peer_idx = idx, peer_x = x, peer_y = y, peer_vx = vx, peer_vy = vy,
              peer_tdf = tdf, peer_latency = latency\<rparr>"
  let ?q0 = "QuadTree (boundary_ls s) (capacity_ls s)"
  let ?pts = "map peer_point (live ?ps)"
  note b = assms(1)
  have "tiled ?q0" "1 \<le> capacity ?q0" using assms(2) by (simp_all add: QuadTree_def)
  from insert_seq_total [OF this, of ?pts] obtain q where
    q: "insert_seq ?q0 ?pts = Some (q, filter (inBoundary ?q0) ?pts)" by blast
  have "filter (inBoundary ?q0) ?pts = ?pts"
    using assms(3) by (auto simp: filter_id_conv inBoundary_def QuadTree_def b peer_point_def)
  with q have q': "insert_seq ?q0 ?pts = Some (q, ?pts)" by simp
  from insert_seq_invariants [OF q'] have "mset (all_points q) = mset ?pts"
    by (simp add: QuadTree_def)
  with q' show ?thesis
    by (intro exI [of _ "s\<lparr>peers := ?ps, quadtree := q\<rparr>"]) (simp add: updatePeer_unfold)
qed

subsection \<open>Values of \<open>double\<close> and the two small examples\<close>

lemma double_exponent_eq:
  assumes "2 powi k \<le> \<bar>x\<bar>" "\<bar>x\<bar> < 2 powi (k + 1)"
  shows "double_exponent x = max (k - 52) (- 1074)"
proof -
  have p: "0 < (2::real) powi k" by (rule zero_less_power_int) simp
  with assms(1) have x: "0 < \<bar>x\<bar>" by linarith
  have a: "(2::real) powr real_of_int k = 2 powi k" by (rule powr_real_of_int') simp_all
  have "(2::real) powr real_of_int (k + 1) = 2 powi (k + 1)" by (rule powr_real_of_int') simp_all
  then have b: "(2::real) powr (real_of_int k + 1) = 2 powi (k + 1)" by (simp add: add.commute)
  from assms have "2 powr real_of_int k \<le> \<bar>x\<bar> \<and> \<bar>x\<bar> < 2 powr (real_of_int k + 1)"
    by (simp only: a b)
  with x have "\<lfloor>log 2 \<bar>x\<bar>\<rfloor> = k" using floor_log_eq_powr_iff [of "\<bar>x\<bar>" 2 k] by simp
  then show ?thesis by (simp add: double_exponent_def)
qed

lemma double_eval:
  assumes "2 powi k \<le> \<bar>x\<bar>" "\<bar>x\<bar> < 2 powi (k + 1)"
  shows "double x =
    of_int (round_half_even (x / 2 powi max (k - 52) (- 1074))) * 2 powi max (k - 52) (- 1074)"
proof -
  have "0 < (2::real) powi k" by (rule zero_less_power_int) simp
  with assms(1) have "0 < \<bar>x\<bar>" by linarith
  then have "x \<noteq> 0" by auto
  then show ?thesis by (simp add: double_def double_exponent_eq [OF assms])
qed

lemma double_0: "double 0 = 0"
  by (simp add: double_def)

lemma double_1: "double 1 = 1"
  using double_eval [of 0 1] by (simp add: round_half_even_def)

lemma double_2: "double 2 = 2"
  using double_eval [of 1 2] by (simp add: round_half_even_def)

lemma double_800: "double 800 = 800"
  using double_eval [of 9 800] by (simp add: round_half_even_def)

lemma double_far_1: "double 9007199254740993 = 9007199254740992"
  using double_eval [of 53 9007199254740993] by (simp add: round_half_even_def)

lemma double_far_2: "double 9007199254740994 = 9007199254740994"
  using double_eval [of 53 9007199254740994] by (simp add: round_half_even_def)

lemma tiny_pos: "0 < tiny"
  unfolding tiny_def by (rule zero_less_power_int) simp

lemma double_tiny: "double tiny = tiny"
  using double_eval [of "- 1074" tiny] unfolding tiny_def by (simp add: round_half_even_def)

lemma double_half_tiny: "double (tiny / 2) = 0"
  using double_eval [of "- 1075" "tiny / 2"] unfolding tiny_def
  by (simp add: round_half_even_def)

lemmas double_simps = double_0 double_1 double_2 double_far_1 double_far_2 double_tiny
  double_half_tiny

lemmas insert_fl_eval = insert_fl_outside insert_fl_push insert_fl_full insert_fl_Divided
  inBoundary_fl_def subdivide_fl_def QuadTree_def Let_def

lemma far_inside:
  "inBoundary (Leaf far_boundary 1 [far_p0]) far_p1 \<and>
   inBoundary_fl double (Leaf far_boundary 1 [far_p0]) far_p1"
  by (simp add: inBoundary_def inBoundary_fl_def far_boundary_def far_p1_def double_simps)

lemma far_insert_1:
  "insert_fl double (Leaf far_boundary 1 [far_p0]) far_p1 = Some (False, far_children 1 [far_p0])"
  by (simp add: far_boundary_def far_p0_def far_p1_def far_children_def insert_fl_eval double_simps)

lemma far_insert_0:
  "insert_fl double (Leaf far_boundary 0 []) far_p0 = Some (False, far_children 0 [])"
  by (simp add: far_boundary_def far_p0_def far_children_def insert_fl_eval double_simps)

lemma far_insert_first:
  "insert_fl double (Leaf far_boundary 1 []) far_p0 = Some (True, Leaf far_boundary 1 [far_p0])"
  by (simp add: far_boundary_def far_p0_def far_children_def insert_fl_eval double_simps)

lemmas engine_fl_eval = LightSeed_def DEFAULT_CONFIG_def insertPeer_fl_def updatePeer_fl_def
  array_set_def array_get_def tiny_config_def tiny_world_def tiny_children_def tiny_peer_def
  peer_point_def insert_fl_eval double_simps

lemma tiny_run:
  "run_fl double (LightSeed (tiny_config 1)) tiny_calls = Some tiny_state"
  using tiny_pos by (simp add: tiny_calls_def tiny_state_def engine_fl_eval)

lemma tiny_run_0:
  "run_fl double (LightSeed (tiny_config 0)) [UpdatePeer 0 0 0 0 0 1 0] = Some tiny_state_0"
  using tiny_pos by (simp add: tiny_state_0_def engine_fl_eval)

lemma scenario_run_fl:
  "run_fl double (LightSeed scenario_config) (scenario_inserts @ scenario_updates v lat) =
     Some (scenario_state v lat)"
  by (simp add: scenario_inserts_def scenario_updates_def scenario_state_def scenario_config_def
      scenario_peer_def DEFAULT_CONFIG_def LightSeed_def insertPeer_fl_def updatePeer_fl_def
      array_set_def insert_fl_eval double_800)

subsection \<open>The rounding of doubles: representable values, bounds, underflow\<close>

lemma log_floor_bounds:
  assumes "x \<noteq> 0"
  shows "2 powi \<lfloor>log 2 \<bar>x\<bar>\<rfloor> \<le> \<bar>x\<bar> \<and> \<bar>x\<bar> < 2 powi (\<lfloor>log 2 \<bar>x\<bar>\<rfloor> + 1)"
proof -
  let ?k = "\<lfloor>log 2 \<bar>x\<bar>\<rfloor>"
  from assms have x: "0 < \<bar>x\<bar>" by simp
  have a: "(2::real) powr real_of_int ?k = 2 powi ?k" by (rule powr_real_of_int') simp_all
  have "(2::real) powr real_of_int (?k + 1) = 2 powi (?k + 1)"
    by (rule powr_real_of_int') simp_all
  then have b: "(2::real) powr (real_of_int ?k + 1) = 2 powi (?k + 1)" by (simp add: add.commute)
  from x have "2 powr real_of_int ?k \<le> \<bar>x\<bar> \<and> \<bar>x\<bar> < 2 powr (real_of_int ?k + 1)"
    using floor_log_eq_powr_iff [of "\<bar>x\<bar>" 2 ?k] by simp
  then show ?thesis by (simp only: a b)
qed

lemma pow2_split: "m \<le> n \<Longrightarrow> (2::real) powi n = 2 powi m * 2 ^ nat (n - m)"
  using power_int_add [of "2::real" m "n - m"] power_int_of_nat [of "2::real" "nat (n - m)"]
  by simp

lemma pow2_mono: "m \<le> n \<Longrightarrow> (2::real) powi m \<le> 2 powi n"
proof -
  assume a: "m \<le> n"
  have "0 < (2::real) powi m" by (rule zero_less_power_int) simp
  moreover have "(1::real) \<le> 2 ^ nat (n - m)" by simp
  ultimately have "(2::real) powi m * 1 \<le> 2 powi m * 2 ^ nat (n - m)"
    by (intro mult_left_mono) simp_all
  with pow2_split [OF a] show ?thesis by simp
qed

lemma pow2_pos: "0 < (2::real) powi k"
  by (rule zero_less_power_int) simp

lemma pow2_exp_less: "(2::real) powi a \<le> x \<Longrightarrow> x < 2 powi b \<Longrightarrow> a < b"
  using pow2_mono [of b a] by (cases "a < b") auto

lemma round_half_even_of_int: "round_half_even (of_int n) = n"
  by (simp add: round_half_even_def)

lemma round_half_even_bound:
  assumes "\<bar>q\<bar> \<le> of_int N"
  shows "\<bar>round_half_even q\<bar> \<le> N"
proof -
  from assms have u: "q \<le> of_int N" and l: "of_int (- N) \<le> q" by simp_all
  from l have l': "- N \<le> \<lfloor>q\<rfloor>" by (simp only: le_floor_iff)
  from u have u': "\<lfloor>q\<rfloor> \<le> N" by (metis floor_mono floor_of_int)
  have "\<lfloor>q\<rfloor> + 1 \<le> N" if "q - of_int \<lfloor>q\<rfloor> \<noteq> 0"
  proof -
    from that have "q \<noteq> of_int N" by auto
    with u have "q < of_int N" by simp
    then have "\<lfloor>q\<rfloor> < N" by (simp add: floor_less_iff)
    then show ?thesis by simp
  qed
  with l' u' show ?thesis by (auto simp: round_half_even_def)
qed

lemma round_half_even_small: "\<bar>q\<bar> \<le> 1 / 2 \<Longrightarrow> round_half_even q = 0"
proof -
  assume a: "\<bar>q\<bar> \<le> 1 / 2"
  consider "0 \<le> q" | "q < 0" by linarith
  then show ?thesis
  proof cases
    case 1
    with a have "\<lfloor>q\<rfloor> = 0" by (simp add: floor_eq_iff)
    with a 1 show ?thesis by (simp add: round_half_even_def)
  next
    case 2
    with a have "\<lfloor>q\<rfloor> = - 1" by (simp add: floor_eq_iff)
    with a 2 show ?thesis by (auto simp add: round_half_even_def)
  qed
qed

lemma double_exponent_ge: "- 1074 \<le> double_exponent x"
  by (simp add: double_exponent_def)

lemma double_exponent_le:
  assumes "x \<noteq> 0" "\<bar>x\<bar> < 2 powi (j + 53)" "- 1074 \<le> j"
  shows "double_exponent x \<le> j"
proof -
  from log_floor_bounds [OF assms(1)] assms(2) have "\<lfloor>log 2 \<bar>x\<bar>\<rfloor> < j + 53"
    by (intro pow2_exp_less [of _ "\<bar>x\<bar>"]) simp_all
  with assms(3) show ?thesis by (simp add: double_exponent_def)
qed

lemma double_shape:
  "double x = of_int (round_half_even (x / 2 powi double_exponent x)) * 2 powi double_exponent x"
  by (simp add: double_def round_half_even_def)

text \<open>A multiple of a power of two with at most 53 bits is a double.\<close>

lemma double_on_grid:
  assumes "x / 2 powi double_exponent x = of_int K"
  shows "double x = x"
proof -
  have "double x = of_int K * 2 powi double_exponent x"
    by (simp only: double_shape [of x] assms round_half_even_of_int)
  also have "\<dots> = x" using assms pow2_pos [of "double_exponent x"]
    by (simp add: field_simps)
  finally show ?thesis .
qed

lemma grid_coarser:
  assumes "E' \<le> E"
  shows "\<exists>K. of_int M * 2 powi E / 2 powi E' = (of_int K :: real)"
proof -
  from pow2_split [OF assms] pow2_pos [of E']
  have "of_int M * 2 powi E / 2 powi E' = (of_int (M * 2 ^ nat (E - E')) :: real)"
    by simp
  then show ?thesis by blast
qed

lemma double_representable:
  assumes "\<bar>M\<bar> \<le> 2 ^ 53" "- 1074 \<le> E"
  shows "double (of_int M * 2 powi E) = of_int M * 2 powi E"
proof (cases "M = 0")
  case True then show ?thesis by (simp add: double_def)
next
  case False
  let ?y = "of_int M * 2 powi E :: real"
  from False pow2_pos [of E] have y0: "?y \<noteq> 0" by simp
  have ay: "\<bar>?y\<bar> = of_int \<bar>M\<bar> * 2 powi E" using pow2_pos [of E] by (simp add: abs_mult)
  show ?thesis
  proof (cases "\<bar>M\<bar> = 2 ^ 53")
    case True
    then have "\<bar>?y\<bar> = 2 ^ 53 * 2 powi E" by (simp add: ay)
    also have "\<dots> = 2 powi (E + 53)"
      using power_int_add [of "2::real" E 53] by simp
    finally have e: "\<bar>?y\<bar> = 2 powi (E + 53)" .
    have "double_exponent ?y = max (E + 53 - 52) (- 1074)"
      using e pow2_mono [of "E + 53" "E + 53 + 1"] pow2_pos [of "E + 53"]
        power_int_add [of "2::real" "E + 53" 1]
      by (intro double_exponent_eq) simp_all
    with assms(2) have de: "double_exponent ?y = E + 1" by simp
    from True have "even M" by (metis abs_minus_cancel abs_of_nonneg even_minus even_numeral
          even_power le_cases pos2 zero_less_numeral abs_if)
    then obtain H where H: "M = 2 * H" by (elim evenE)
    have "?y / 2 powi (E + 1) = of_int H"
      using power_int_add [of "2::real" E 1] pow2_pos [of E] by (simp add: H)
    with de show ?thesis by (intro double_on_grid [of _ H]) simp
  next
    case False
    with assms(1) have "\<bar>M\<bar> < 2 ^ 53" by simp
    then have "(of_int \<bar>M\<bar> :: real) < 2 ^ 53" by (metis of_int_less_iff of_int_numeral of_int_power)
    then have "\<bar>?y\<bar> < 2 ^ 53 * 2 powi E" using pow2_pos [of E] by (simp add: ay)
    also have "2 ^ 53 * 2 powi E = (2::real) powi (E + 53)"
      using power_int_add [of "2::real" E 53] by simp
    finally have "double_exponent ?y \<le> E" using y0 assms(2) by (intro double_exponent_le)
    from grid_coarser [OF this, of M] obtain K where
      "?y / 2 powi double_exponent ?y = of_int K" by blast
    then show ?thesis by (rule double_on_grid)
  qed
qed

lemma double_idem: "double (double x) = double x"
proof (cases "x = 0")
  case True then show ?thesis by (simp add: double_def)
next
  case False
  let ?E = "double_exponent x"
  let ?q = "x / 2 powi ?E"
  from log_floor_bounds [OF False] have "\<bar>x\<bar> < 2 powi (\<lfloor>log 2 \<bar>x\<bar>\<rfloor> + 1)" by simp
  also have "\<dots> \<le> 2 powi (?E + 53)"
    by (intro pow2_mono) (simp add: double_exponent_def)
  also have "\<dots> = 2 ^ 53 * 2 powi ?E"
    using power_int_add [of "2::real" ?E 53] by simp
  finally have "\<bar>?q\<bar> < 2 ^ 53" using pow2_pos [of ?E] by (simp add: abs_divide field_simps)
  then have "\<bar>?q\<bar> \<le> of_int (2 ^ 53)" by simp
  from round_half_even_bound [OF this] double_exponent_ge [of x]
  have "double (of_int (round_half_even ?q) * 2 powi ?E) = of_int (round_half_even ?q) * 2 powi ?E"
    by (intro double_representable) simp_all
  then show ?thesis by (simp only: double_shape [of x, symmetric])
qed

lemma double_bound:
  assumes "- 1074 \<le> j" "\<bar>x\<bar> \<le> 2 powi j"
  shows "\<bar>double x\<bar> \<le> 2 powi j"
proof (cases "x = 0")
  case True then show ?thesis using pow2_pos [of j] by (simp add: double_def)
next
  case False
  let ?E = "double_exponent x"
  let ?q = "x / 2 powi ?E"
  have "(2::real) powi j < 2 powi (j + 53)"
    using power_int_add [of "2::real" j 53] pow2_pos [of j] by simp
  with assms(2) have "\<bar>x\<bar> < 2 powi (j + 53)" by simp
  from double_exponent_le [OF False this assms(1)] have E: "?E \<le> j" .
  let ?N = "2 ^ nat (j - ?E) :: int"
  from pow2_split [OF E] have j: "(2::real) powi j = of_int ?N * 2 powi ?E" by simp
  with assms(2) pow2_pos [of ?E] have "\<bar>?q\<bar> \<le> of_int ?N"
    by (simp add: abs_divide field_simps)
  from round_half_even_bound [OF this]
  have "(of_int \<bar>round_half_even ?q\<bar> :: real) \<le> of_int ?N" by (simp only: of_int_le_iff)
  then have "\<bar>of_int (round_half_even ?q) * 2 powi ?E :: real\<bar> \<le> of_int ?N * 2 powi ?E"
    using pow2_pos [of ?E] by (simp add: abs_mult)
  then show ?thesis by (simp only: double_shape [of x, symmetric] j)
qed

lemma double_underflow:
  assumes "\<bar>x\<bar> \<le> 2 powi (- 1075)"
  shows "double x = 0"
proof (cases "x = 0")
  case True then show ?thesis by (simp add: double_def)
next
  case False
  have h: "(2::real) powi (- 1074) = 2 * 2 powi (- 1075)"
    using power_int_add [of "2::real" "- 1075" 1] by simp
  have "(2::real) powi (- 1075) < 2 powi (- 1074 + 53)"
    using pow2_mono [of "- 1074" "- 1074 + 53"] pow2_pos [of "- 1075"] by (simp add: h)
  with assms have "\<bar>x\<bar> < 2 powi (- 1074 + 53)" by simp
  from double_exponent_le [OF False this] double_exponent_ge [of x]
  have E: "double_exponent x = - 1074" by simp
  from assms pow2_pos [of "- 1075"] have "\<bar>x / 2 powi (- 1074)\<bar> \<le> 1 / 2"
    by (simp add: h abs_divide field_simps)
  from round_half_even_small [OF this] show ?thesis
    by (simp add: double_shape [of x] E)
qed

lemma halving_reaches_zero: "\<exists>n. ((\<lambda>w. double (w / 2)) ^^ n) w = 0"
proof -
  let ?g = "\<lambda>w. double (w / 2)"
  have step: "(?g ^^ Suc m) w = 0" if "\<bar>w\<bar> \<le> 2 powi (int m - 1074)" for m w
    using that
  proof (induct m arbitrary: w)
    case 0
    have "(2::real) powi (- 1074) = 2 * 2 powi (- 1075)"
      using power_int_add [of "2::real" "- 1075" 1] by simp
    with 0 have "\<bar>w / 2\<bar> \<le> 2 powi (- 1075)" by simp
    from double_underflow [OF this] show ?case by simp
  next
    case (Suc m)
    have "(2::real) powi (int (Suc m) - 1074) = 2 * 2 powi (int m - 1074)"
      using power_int_add [of "2::real" "int m - 1074" 1] by (simp add: algebra_simps)
    with Suc.prems have "\<bar>w / 2\<bar> \<le> 2 powi (int m - 1074)" by simp
    from double_bound [OF _ this] have "\<bar>?g w\<bar> \<le> 2 powi (int m - 1074)" by simp
    from Suc.hyps [OF this] have "(?g ^^ Suc m) (?g w) = 0" .
    moreover have "(?g ^^ Suc (Suc m)) w = (?g ^^ Suc m) (?g w)"
      by (simp only: funpow_Suc_right o_apply)
    ultimately show ?case by (simp only:)
  qed
  from real_arch_pow [of 2 "\<bar>w\<bar>"] obtain n where n: "\<bar>w\<bar> < 2 ^ n" by auto
  have "(2::real) ^ n = 2 powi int n" by (simp add: power_int_of_nat)
  also have "\<dots> \<le> 2 powi (int (n + 1074) - 1074)" by (intro pow2_mono) simp
  finally have "\<bar>w\<bar> \<le> 2 powi (int (n + 1074) - 1074)" using n by simp
  from step [OF this] show ?thesis by blast
qed

subsection \<open>Under the rounding of doubles \<open>insert\<close> returns, whatever the capacity\<close>

text \<open>
  A leaf of capacity 0 never has room, so each call subdivides; the width of the
  quadrants is halved and rounded each time and reaches 0, and a region of width 0 whose
  origin is a double holds no point.
\<close>

lemma halving_ends_double: "halving_ends double"
  by (simp add: halving_ends_def double_idem halving_reaches_zero)

lemma insert_fl_Divided_returns:
  assumes "insert_fl fl nw p \<noteq> None" "insert_fl fl ne p \<noteq> None"
    "insert_fl fl sw p \<noteq> None" "insert_fl fl se p \<noteq> None"
  shows "insert_fl fl (Divided b c ps nw ne sw se) p \<noteq> None"
proof (cases "inBoundary_fl fl (Divided b c ps nw ne sw se) p")
  case False
  then show ?thesis by (simp add: insert_fl_outside)
next
  case True
  from assms obtain r1 nw' r2 ne' r3 sw' r4 se' where
    "insert_fl fl nw p = Some (r1, nw')" "insert_fl fl ne p = Some (r2, ne')"
    "insert_fl fl sw p = Some (r3, sw')" "insert_fl fl se p = Some (r4, se')"
    by fastforce
  then show ?thesis by (auto simp add: insert_fl_Divided [OF True])
qed

lemma subdivide_fl_Leaf:
  "subdivide_fl fl (Leaf b c ps) =
     Divided b c ps
       (Leaf \<lparr>rect_x = rect_x b, rect_y = rect_y b,
              rect_width = fl (rect_width b / 2), rect_height = fl (rect_height b / 2)\<rparr> c [])
       (Leaf \<lparr>rect_x = fl (rect_x b + fl (rect_width b / 2)), rect_y = rect_y b,
              rect_width = fl (rect_width b / 2), rect_height = fl (rect_height b / 2)\<rparr> c [])
       (Leaf \<lparr>rect_x = rect_x b, rect_y = fl (rect_y b + fl (rect_height b / 2)),
              rect_width = fl (rect_width b / 2), rect_height = fl (rect_height b / 2)\<rparr> c [])
       (Leaf \<lparr>rect_x = fl (rect_x b + fl (rect_width b / 2)),
              rect_y = fl (rect_y b + fl (rect_height b / 2)),
              rect_width = fl (rect_width b / 2), rect_height = fl (rect_height b / 2)\<rparr> c [])"
  by (simp add: subdivide_fl_def QuadTree_def Let_def)

lemma empty_leaf_returns_0:
  assumes idem: "\<And>z. fl (fl z) = fl z"
  shows "((\<lambda>w. fl (w / 2)) ^^ n) (rect_width b) = 0 \<Longrightarrow> fl (rect_x b) = rect_x b \<Longrightarrow>
         insert_fl fl (Leaf b 0 []) p \<noteq> None"
proof (induct n arbitrary: b)
  case 0
  then have "\<not> inBoundary_fl fl (Leaf b 0 []) p" by (simp add: inBoundary_fl_def)
  then show ?case by (simp add: insert_fl_outside)
next
  case (Suc n)
  show ?case
  proof (cases "inBoundary_fl fl (Leaf b 0 []) p")
    case False
    then show ?thesis by (simp add: insert_fl_outside)
  next
    case True
    from Suc.prems(1) have w: "((\<lambda>w. fl (w / 2)) ^^ n) (fl (rect_width b / 2)) = 0"
      by (simp only: funpow_Suc_right o_apply)
    have "insert_fl fl (Leaf b' 0 []) p \<noteq> None"
      if "rect_width b' = fl (rect_width b / 2)" "fl (rect_x b') = rect_x b'" for b'
      using Suc.hyps [of b'] w that by simp
    then have "insert_fl fl (subdivide_fl fl (Leaf b 0 [])) p \<noteq> None"
      unfolding subdivide_fl_Leaf
      by (intro insert_fl_Divided_returns) (simp_all add: idem Suc.prems(2))
    with True show ?thesis by (simp add: insert_fl_full)
  qed
qed

lemma empty_leaf_returns:
  assumes "halving_ends fl" "fl (rect_x b) = rect_x b"
  shows "insert_fl fl (Leaf b c []) p \<noteq> None"
proof (cases "c = 0")
  case True
  from assms(1) obtain n where "((\<lambda>w. fl (w / 2)) ^^ n) (rect_width b) = 0"
    unfolding halving_ends_def by blast
  from empty_leaf_returns_0 [OF _ this assms(2)] assms(1) True show ?thesis
    by (simp add: halving_ends_def)
next
  case False
  then have "1 \<le> c" by simp
  from insert_effect_fresh [OF this, of fl b p] show ?thesis by auto
qed

lemma insert_fl_returns:
  assumes h: "halving_ends fl"
  shows "origin_rounded fl t \<Longrightarrow> insert_fl fl t p \<noteq> None"
proof (induct t)
  case (Leaf b c ps)
  then have x: "fl (rect_x b) = rect_x b" by simp
  from h have idem: "fl (fl z) = fl z" for z by (simp add: halving_ends_def)
  show ?case
  proof (cases "inBoundary_fl fl (Leaf b c ps) p")
    case False
    then show ?thesis by (simp add: insert_fl_outside)
  next
    case inside: True
    show ?thesis
    proof (cases "length ps < c")
      case True
      with inside show ?thesis by (simp add: insert_fl_push)
    next
      case False
      have "insert_fl fl (subdivide_fl fl (Leaf b c ps)) p \<noteq> None"
        unfolding subdivide_fl_Leaf
        by (intro insert_fl_Divided_returns empty_leaf_returns [OF h]) (simp_all add: idem x)
      with inside False show ?thesis by (simp add: insert_fl_full)
    qed
  qed
next
  case (Divided b c ps nw ne sw se)
  then show ?case by (intro insert_fl_Divided_returns) simp_all
qed

lemma insert_fl_origin_rounded:
  assumes "insert_fl fl t p = Some (r, t')"
  shows "(\<forall>z. fl (fl z) = fl z) \<Longrightarrow> origin_rounded fl t \<Longrightarrow> origin_rounded fl t'"
  using assms
proof (induct rule: insert_fl_induct)
  case (outside fl t p) then show ?case by simp
next
  case (push fl b c ps p) then show ?case by simp
next
  case (nw fl t p b c ps nw ne sw se nw')
  from target_fl_cases [OF nw.hyps(2,3)] nw.prems nw.hyps(5) show ?case
    by (auto simp: subdivide_fl_Leaf)
next
  case (ne fl t p b c ps nw ne sw se nw' ne')
  from target_fl_cases [OF ne.hyps(2,3)] ne.prems ne.hyps(6,7) show ?case
    by (auto simp: subdivide_fl_Leaf)
next
  case (sw fl t p b c ps nw ne sw se nw' ne' sw')
  from target_fl_cases [OF sw.hyps(2,3)] sw.prems sw.hyps(7,8,9) show ?case
    by (auto simp: subdivide_fl_Leaf)
next
  case (se fl t p b c ps nw ne sw se nw' ne' sw' se' r)
  from target_fl_cases [OF se.hyps(2,3)] se.prems se.hyps(8,9,10,11) show ?case
    by (auto simp: subdivide_fl_Leaf)
qed

lemma insert_seq_fl_returns:
  assumes h: "halving_ends fl"
  shows "origin_rounded fl t \<Longrightarrow> insert_seq_fl fl t qs \<noteq> None"
proof (induct qs arbitrary: t)
  case Nil show ?case by simp
next
  case (Cons p qs)
  from insert_fl_returns [OF h Cons.prems, of p] obtain r t1 where
    a: "insert_fl fl t p = Some (r, t1)" by fastforce
  from insert_fl_origin_rounded [OF a] h Cons.prems have "origin_rounded fl t1"
    by (simp add: halving_ends_def)
  from Cons.hyps [OF this] a show ?case by fastforce
qed

lemma double_far_0: "double 9007199254740992 = 9007199254740992"
  using double_eval [of 53 9007199254740992] by (simp add: round_half_even_def)

lemma updatePeer_double_returns:
  assumes "run_fl fl (LightSeed cfg) calls = Some s"
  shows "updatePeer_fl double s idx x y vx vy tdf latency \<noteq> None"
proof -
  from reachable_fl_boundary [OF assms]
  have "origin_rounded double (QuadTree (boundary_ls s) (capacity_ls s))"
    by (simp add: QuadTree_def double_0)
  from insert_seq_fl_returns [OF halving_ends_double this]
  obtain q acc where
    "insert_seq_fl double (QuadTree (boundary_ls s) (capacity_ls s))
       (map peer_point (live (array_set (peers s) idx
          \<lparr>peer_idx = idx, peer_x = x, peer_y = y, peer_vx = vx, peer_vy = vy,
           peer_tdf = tdf, peer_latency = latency\<rparr>))) = Some (q, acc)"
    by fastforce
  then show ?thesis by (simp add: updatePeer_fl_def Let_def forEach_insert_fl_seq)
qed

subsection \<open>Fifty-five records at one position of the default world\<close>

text \<open>
  Doubles between 512 and 1024 are \<open>2 powi (- 43)\<close> apart. A quadrant at 750 of side
  \<open>side j\<close> holds the position 750 as long as \<open>750 + side j\<close> rounds above 750, that is
  for \<open>j \<le> 51\<close>; \<open>750 + side 52\<close> rounds to 750. So the chain takes 52 records, the
  index 54, and the 55th is rejected by every quadrant of the last node.
\<close>

lemma round_half_even_up:
  assumes "1 / 2 < f"
  shows "M < round_half_even (of_int M + f)"
proof -
  have fl: "\<lfloor>of_int M + f\<rfloor> = M + \<lfloor>f\<rfloor>" by simp
  have "0 \<le> \<lfloor>f\<rfloor>" using assms by (simp add: le_floor_iff)
  then consider "\<lfloor>f\<rfloor> = 0" | "1 \<le> \<lfloor>f\<rfloor>" by linarith
  then show ?thesis
  proof cases
    case 1
    with assms show ?thesis by (simp add: round_half_even_def)
  next
    case 2
    then show ?thesis by (auto simp add: round_half_even_def)
  qed
qed

lemma round_half_even_down:
  assumes "0 \<le> f" "f < 1 / 2"
  shows "round_half_even (of_int M + f) = M"
proof -
  from assms have "\<lfloor>f\<rfloor> = 0" by (simp add: floor_eq_iff)
  with assms show ?thesis by (simp add: round_half_even_def)
qed

lemma double_near_750:
  assumes "0 \<le> h" "h < 274"
  shows "double (750 + h) = of_int (round_half_even (of_int (750 * 2 ^ 43) + h * 2 ^ 43)) / 2 ^ 43"
proof -
  have "double (750 + h) =
      of_int (round_half_even ((750 + h) / 2 powi max (9 - 52) (- 1074))) *
        2 powi max (9 - 52) (- 1074)"
    using assms by (intro double_eval) simp_all
  also have "max (9 - 52) (- 1074) = (- 43 :: int)" by simp
  also have "(2::real) powi (- 43) = 1 / 2 ^ 43" by (simp add: power_int_minus field_simps)
  finally show ?thesis by (simp add: algebra_simps)
qed

lemma double_above_750:
  assumes "0 \<le> h" "h < 274" "1 / 2 < h * 2 ^ 43"
  shows "750 < double (750 + h)"
proof -
  define R where "R = round_half_even (of_int (750 * 2 ^ 43) + h * 2 ^ 43)"
  have d: "double (750 + h) = of_int R / 2 ^ 43"
    by (simp only: R_def double_near_750 [OF assms(1,2)])
  from round_half_even_up [OF assms(3), of "750 * 2 ^ 43"] have "750 * 2 ^ 43 < R"
    by (simp only: R_def)
  then have "(of_int (750 * 2 ^ 43) :: real) < of_int R" by (simp only: of_int_less_iff)
  then have "(750::real) * 2 ^ 43 < of_int R" by simp
  then have "750 < of_int R / (2 ^ 43 :: real)" by (simp add: pos_less_divide_eq)
  then show ?thesis by (simp only: d)
qed

lemma double_stays_750:
  assumes "0 \<le> h" "h * 2 ^ 43 < 1 / 2"
  shows "double (750 + h) = 750"
proof -
  from assms have "h < 274" by simp
  from double_near_750 [OF assms(1) this] round_half_even_down [of "h * 2 ^ 43" "750 * 2 ^ 43"]
    assms
  show ?thesis by simp
qed

lemma side_pos: "0 < side j"
  by (simp add: side_def pow2_pos)

lemma side_half: "j \<le> 1000 \<Longrightarrow> double (side j / 2) = side (Suc j)"
proof -
  assume "j \<le> 1000"
  have "side j / 2 = of_int 125 * 2 powi (- int j)"
    using power_int_add [of "2::real" "- int j" 1] by (simp add: side_def)
  moreover have "double (of_int 125 * 2 powi (- int j)) = of_int 125 * 2 powi (- int j)"
    using \<open>j \<le> 1000\<close> by (intro double_representable) simp_all
  moreover have "side (Suc j) = of_int 125 * 2 powi (- int j)" by (simp add: side_def)
  ultimately show ?thesis by simp
qed

lemma side_le: "side j \<le> 250"
proof -
  have "(2::real) powi (1 - int j) \<le> 2 powi 1" by (intro pow2_mono) simp
  then show ?thesis by (simp add: side_def)
qed

lemma side_scaled: "side j * 2 ^ 43 = 125 * 2 powi (44 - int j)"
  using power_int_add [of "2::real" "1 - int j" 43] by (simp add: side_def)

lemma side_roomy: "j \<le> 51 \<Longrightarrow> 750 < double (750 + side j)"
proof -
  assume j: "j \<le> 51"
  have "(2::real) powi (- 7) \<le> 2 powi (44 - int j)" using j by (intro pow2_mono) simp
  moreover have "(2::real) powi (- 7) = 1 / 128" by (simp add: power_int_minus)
  ultimately have "1 / 2 < 125 * (2::real) powi (44 - int j)" by linarith
  then have "1 / 2 < side j * 2 ^ 43" by (simp only: side_scaled)
  with side_pos [of j] side_le [of j] show ?thesis by (intro double_above_750) simp_all
qed

lemma side_52: "double (750 + side 52) = 750"
  by (intro double_stays_750) (simp_all add: side_def power_int_minus)

lemma chain_inside:
  assumes "at_750 q" "j \<le> 51" "boundary t = crowd_rect (side j)"
  shows "inBoundary_fl double t q"
  using assms side_roomy [of j] by (simp add: inBoundary_fl_def crowd_rect_def at_750_def)

lemma chain_insert:
  assumes q: "at_750 q"
  shows "j + length ps \<le> 51 \<Longrightarrow>
    insert_fl double (chain False (side j) ps) q = Some (True, chain False (side j) (ps @ [q]))"
proof (induct ps arbitrary: j)
  case Nil
  then have "inBoundary_fl double (Leaf (crowd_rect (side j)) 1 []) q"
    by (intro chain_inside [OF q, of j]) simp_all
  then show ?case by (simp add: insert_fl_push)
next
  case (Cons p ps)
  from Cons.prems have j: "j \<le> 51" "Suc j \<le> 51" "j \<le> 1000" by simp_all
  show ?case
  proof (cases "ps = []")
    case True
    have i: "inBoundary_fl double (Leaf (crowd_rect (side j)) 1 [p]) q"
      by (intro chain_inside [OF q j(1)]) simp
    have i1: "inBoundary_fl double (Leaf (crowd_rect (side (Suc j))) 1 []) q"
      by (intro chain_inside [OF q j(2)]) simp
    have i2: "inBoundary_fl double (subdivide_fl double (Leaf (crowd_rect (side j)) 1 [p])) q"
      using i by (simp add: inBoundary_fl_subdivide)
    have c: "\<lparr>rect_x = 750, rect_y = 750, rect_width = side (Suc j),
              rect_height = side (Suc j)\<rparr> = crowd_rect (side (Suc j))"
      by (simp add: crowd_rect_def)
    have s: "subdivide_fl double (Leaf (crowd_rect (side j)) 1 [p]) =
      Divided (crowd_rect (side j)) 1 [p] (Leaf (crowd_rect (side (Suc j))) 1 [])
        (Leaf \<lparr>rect_x = double (750 + side (Suc j)), rect_y = 750,
               rect_width = side (Suc j), rect_height = side (Suc j)\<rparr> 1 [])
        (Leaf \<lparr>rect_x = 750, rect_y = double (750 + side (Suc j)),
               rect_width = side (Suc j), rect_height = side (Suc j)\<rparr> 1 [])
        (Leaf \<lparr>rect_x = double (750 + side (Suc j)), rect_y = double (750 + side (Suc j)),
               rect_width = side (Suc j), rect_height = side (Suc j)\<rparr> 1 [])"
      by (simp add: subdivide_fl_Leaf crowd_rect_def side_half [OF j(3)])
    from i2 have i3: "inBoundary_fl double (Divided (crowd_rect (side j)) 1 [p]
        (Leaf (crowd_rect (side (Suc j))) 1 [])
        (Leaf \<lparr>rect_x = double (750 + side (Suc j)), rect_y = 750,
               rect_width = side (Suc j), rect_height = side (Suc j)\<rparr> 1 [])
        (Leaf \<lparr>rect_x = 750, rect_y = double (750 + side (Suc j)),
               rect_width = side (Suc j), rect_height = side (Suc j)\<rparr> 1 [])
        (Leaf \<lparr>rect_x = double (750 + side (Suc j)), rect_y = double (750 + side (Suc j)),
               rect_width = side (Suc j), rect_height = side (Suc j)\<rparr> 1 [])) q"
      by (simp only: s)
    have "insert_fl double (Leaf (crowd_rect (side j)) 1 [p]) q =
        insert_fl double (subdivide_fl double (Leaf (crowd_rect (side j)) 1 [p])) q"
      using i by (intro insert_fl_full) simp_all
    also have "\<dots> = Some (True, Divided (crowd_rect (side j)) 1 [p]
        (Leaf (crowd_rect (side (Suc j))) 1 [q])
        (Leaf \<lparr>rect_x = double (750 + side (Suc j)), rect_y = 750,
               rect_width = side (Suc j), rect_height = side (Suc j)\<rparr> 1 [])
        (Leaf \<lparr>rect_x = 750, rect_y = double (750 + side (Suc j)),
               rect_width = side (Suc j), rect_height = side (Suc j)\<rparr> 1 [])
        (Leaf \<lparr>rect_x = double (750 + side (Suc j)), rect_y = double (750 + side (Suc j)),
               rect_width = side (Suc j), rect_height = side (Suc j)\<rparr> 1 []))"
      unfolding s using insert_fl_Divided [OF i3] insert_fl_push [OF i1] by simp
    finally show ?thesis using True by (simp add: side_half [OF j(3)] c)
  next
    case False
    then obtain p' ps' where ps: "ps = p' # ps'" by (cases ps) auto
    have i: "inBoundary_fl double (chain False (side j) (p # ps)) q"
      by (intro chain_inside [OF q j(1)]) (simp add: ps)
    from Cons.hyps [of "Suc j"] Cons.prems
    have IH: "insert_fl double (chain False (side (Suc j)) ps) q =
        Some (True, chain False (side (Suc j)) (ps @ [q]))" by simp
    from i have i': "inBoundary_fl double (Divided (crowd_rect (side j)) 1 [p]
        (chain False (side (Suc j)) ps)
        (Leaf \<lparr>rect_x = double (750 + side (Suc j)), rect_y = 750,
               rect_width = side (Suc j), rect_height = side (Suc j)\<rparr> 1 [])
        (Leaf \<lparr>rect_x = 750, rect_y = double (750 + side (Suc j)),
               rect_width = side (Suc j), rect_height = side (Suc j)\<rparr> 1 [])
        (Leaf \<lparr>rect_x = double (750 + side (Suc j)), rect_y = double (750 + side (Suc j)),
               rect_width = side (Suc j), rect_height = side (Suc j)\<rparr> 1 [])) q"
      by (simp add: ps side_half [OF j(3)])
    show ?thesis
      using False insert_fl_Divided [OF i'] IH by (simp add: side_half [OF j(3)])
  qed
qed

lemma chain_reject:
  assumes q: "at_750 q"
  shows "ps \<noteq> [] \<Longrightarrow> j + length ps = 52 \<Longrightarrow>
    insert_fl double (chain False (side j) ps) q = Some (False, chain True (side j) ps)"
proof (induct ps arbitrary: j)
  case Nil then show ?case by simp
next
  case (Cons p ps)
  from Cons.prems have j: "j \<le> 51" "j \<le> 1000" by simp_all
  from q have qx: "point_x q = 750" "point_y q = 750" by (simp_all add: at_750_def)
  let ?ne = "Leaf \<lparr>rect_x = double (750 + side (Suc j)), rect_y = 750,
               rect_width = side (Suc j), rect_height = side (Suc j)\<rparr> 1 []"
  let ?sw = "Leaf \<lparr>rect_x = 750, rect_y = double (750 + side (Suc j)),
               rect_width = side (Suc j), rect_height = side (Suc j)\<rparr> 1 []"
  let ?se = "Leaf \<lparr>rect_x = double (750 + side (Suc j)), rect_y = double (750 + side (Suc j)),
               rect_width = side (Suc j), rect_height = side (Suc j)\<rparr> 1 []"
  show ?case
  proof (cases "ps = []")
    case True
    with Cons.prems have j51: "j = 51" by simp
    have i: "inBoundary_fl double (Leaf (crowd_rect (side j)) 1 [p]) q"
      by (intro chain_inside [OF q j(1)]) simp
    have s: "subdivide_fl double (Leaf (crowd_rect (side j)) 1 [p]) =
      Divided (crowd_rect (side j)) 1 [p] (Leaf (crowd_rect (side (Suc j))) 1 []) ?ne ?sw ?se"
      by (simp add: subdivide_fl_Leaf crowd_rect_def side_half [OF j(2)])
    from i have i3: "inBoundary_fl double
        (Divided (crowd_rect (side j)) 1 [p] (Leaf (crowd_rect (side (Suc j))) 1 []) ?ne ?sw ?se) q"
      by (simp add: inBoundary_fl_def)
    have d: "double (750 + side (Suc j)) = 750" using side_52 by (simp add: j51)
    have o: "\<not> inBoundary_fl double (Leaf (crowd_rect (side (Suc j))) 1 []) q"
      "\<not> inBoundary_fl double ?ne q" "\<not> inBoundary_fl double ?sw q"
      "\<not> inBoundary_fl double ?se q"
      by (simp_all add: inBoundary_fl_def crowd_rect_def qx d)
    have "insert_fl double (Leaf (crowd_rect (side j)) 1 [p]) q =
        insert_fl double (subdivide_fl double (Leaf (crowd_rect (side j)) 1 [p])) q"
      using i by (intro insert_fl_full) simp_all
    also have "\<dots> = Some (False,
        Divided (crowd_rect (side j)) 1 [p] (Leaf (crowd_rect (side (Suc j))) 1 []) ?ne ?sw ?se)"
      unfolding s using insert_fl_Divided [OF i3] insert_fl_outside [OF o(1)]
          insert_fl_outside [OF o(2)] insert_fl_outside [OF o(3)] insert_fl_outside [OF o(4)]
      by simp
    finally show ?thesis using True by (simp add: side_half [OF j(2)])
  next
    case False
    with Cons.prems have j50: "Suc j \<le> 51" by (cases ps) auto
    have i: "inBoundary_fl double (chain False (side j) (p # ps)) q"
      by (intro chain_inside [OF q j(1)]) (simp add: False)
    from Cons.hyps [OF False, of "Suc j"] Cons.prems
    have IH: "insert_fl double (chain False (side (Suc j)) ps) q =
        Some (False, chain True (side (Suc j)) ps)" by simp
    from i False have i': "inBoundary_fl double (Divided (crowd_rect (side j)) 1 [p]
        (chain False (side (Suc j)) ps) ?ne ?sw ?se) q"
      by (simp add: side_half [OF j(2)])
    have o: "\<not> inBoundary_fl double ?ne q" "\<not> inBoundary_fl double ?sw q"
      "\<not> inBoundary_fl double ?se q"
      using side_roomy [OF j50] by (simp_all add: inBoundary_fl_def qx)
    show ?thesis
      using False insert_fl_Divided [OF i'] IH
          insert_fl_outside [OF o(1)] insert_fl_outside [OF o(2)] insert_fl_outside [OF o(3)]
      by (simp add: side_half [OF j(2)])
  qed
qed

lemma double_int: "\<bar>M\<bar> \<le> 2 ^ 53 \<Longrightarrow> double (of_int M) = of_int M"
  using double_representable [of M 0] by simp

lemma double_crowd: "double 1000 = 1000" "double 750 = 750" "double 500 = 500"
  "double 250 = 250"
  using double_int [of 1000] double_int [of 750] double_int [of 500] double_int [of 250]
  by simp_all

lemma side_0: "side 0 = 250"
  by (simp add: side_def)

lemma all_points_chain: "all_points (chain s w ps) = ps"
  by (induct ps arbitrary: w) auto

lemma all_points_crowd_tree: "all_points (crowd_tree s ps) = ps"
  by (induct s ps rule: crowd_tree.induct) (auto simp: all_points_chain)

lemmas crowd_eval = insert_fl_eval world_1000_def double_crowd double_0 at_750_def

lemma crowd_insert:
  assumes q: "at_750 q" and n: "length ps \<le> 53"
  shows "insert_fl double (crowd_tree False ps) q = Some (True, crowd_tree False (ps @ [q]))"
proof (cases ps)
  case Nil
  with q show ?thesis by (simp add: crowd_eval)
next
  case (Cons p0 ps1)
  show ?thesis
  proof (cases ps1)
    case Nil
    with Cons q show ?thesis by (simp add: crowd_eval)
  next
    case ps1: (Cons p1 ps2)
    show ?thesis
    proof (cases "ps2 = []")
      case True
      with Cons ps1 q show ?thesis by (simp add: crowd_eval crowd_rect_def)
    next
      case False
      from n Cons ps1 have "0 + length ps2 \<le> 51" by simp
      from chain_insert [OF q this]
      have c: "insert_fl double (chain False 250 ps2) q =
          Some (True, chain False 250 (ps2 @ [q]))"
        by (simp add: side_0)
      from q False c Cons ps1 show ?thesis by (simp add: crowd_eval)
    qed
  qed
qed

lemma crowd_reject:
  assumes q: "at_750 q" and n: "length ps = 54"
  shows "insert_fl double (crowd_tree False ps) q = Some (False, crowd_tree True ps)"
proof -
  from n obtain p0 p1 ps2 where ps: "ps = p0 # p1 # ps2"
    by (cases ps; cases "tl ps") auto
  with n have m: "ps2 \<noteq> []" "0 + length ps2 = 52" by auto
  from chain_reject [OF q m]
  have c: "insert_fl double (chain False 250 ps2) q = Some (False, chain True 250 ps2)"
    by (simp add: side_0)
  from q m(1) c ps show ?thesis by (simp add: crowd_eval)
qed

lemma crowd_insert_seq:
  "list_all at_750 qs \<Longrightarrow> length ps + length qs \<le> 54 \<Longrightarrow>
     insert_seq_fl double (crowd_tree False ps) qs = Some (crowd_tree False (ps @ qs), qs)"
proof (induct qs arbitrary: ps)
  case Nil then show ?case by simp
next
  case (Cons q qs)
  from Cons.prems have a: "at_750 q" "list_all at_750 qs" "length ps \<le> 53"
    "length (ps @ [q]) + length qs \<le> 54" by simp_all
  from crowd_insert [OF a(1,3)] Cons.hyps [OF a(2,4)] show ?case by simp
qed

lemma insert_seq_fl_snoc:
  "insert_seq_fl fl t (qs @ [q]) =
     do {
       (t', acc) \<leftarrow> insert_seq_fl fl t qs;
       (ok, t'') \<leftarrow> insert_fl fl t' q;
       Some (t'', if ok then acc @ [q] else acc)
     }"
proof (induct qs arbitrary: t)
  case Nil show ?case by (simp split: bind_splits prod.splits option.splits)
next
  case (Cons p qs)
  show ?case
  proof (cases "insert_fl fl t p")
    case None then show ?thesis by simp
  next
    case (Some y)
    obtain ok t1 where y: "y = (ok, t1)" by (cases y)
    show ?thesis
    proof (cases "insert_seq_fl fl t1 qs")
      case None with Some y Cons [of t1] show ?thesis by simp
    next
      case s2: (Some z)
      obtain t2 acc where z: "z = (t2, acc)" by (cases z)
      show ?thesis
      proof (cases "insert_fl fl t2 q")
        case None with Some y s2 z Cons [of t1] show ?thesis by simp
      next
        case s3: (Some u)
        obtain ok' t3 where u: "u = (ok', t3)" by (cases u)
        from Some y s2 z s3 u Cons [of t1] show ?thesis by simp
      qed
    qed
  qed
qed

lemma crowd_points_at: "list_all at_750 (map crowd_point xs)"
  by (simp add: list_all_iff at_750_def crowd_point_def)

lemma crowd_rebuild:
  "n \<le> 54 \<Longrightarrow>
   insert_seq_fl double (Leaf world_1000 1 []) (map crowd_point [0..<n]) =
     Some (crowd_tree False (map crowd_point [0..<n]), map crowd_point [0..<n])"
  using crowd_insert_seq [OF crowd_points_at, of "[]" "[0..<n]"] by simp

lemma crowd_rebuild_55:
  "insert_seq_fl double (Leaf world_1000 1 []) (map crowd_point [0..<55]) =
     Some (crowd_tree True (map crowd_point [0..<54]), map crowd_point [0..<54])"
proof -
  have "[0..<55] = [0..<54] @ [54]" by (simp add: upt_rec)
  then have "map crowd_point [0..<55] = map crowd_point [0..<54] @ [crowd_point 54]" by simp
  moreover have "insert_fl double (crowd_tree False (map crowd_point [0..<54])) (crowd_point 54) =
      Some (False, crowd_tree True (map crowd_point [0..<54]))"
    by (intro crowd_reject) (simp_all add: at_750_def crowd_point_def)
  ultimately show ?thesis
    using crowd_rebuild [of 54] by (simp only: insert_seq_fl_snoc) simp
qed

lemma live_Some: "live (map Some xs) = xs"
  by (induct xs) auto

lemma crowd_live: "live (map (\<lambda>i. Some (crowd_peer i)) xs) = map crowd_peer xs"
  using live_Some [of "map crowd_peer xs"] by (simp add: comp_def)

lemma crowd_peer_point: "map peer_point (map crowd_peer xs) = map crowd_point xs"
  by (simp add: peer_point_def crowd_peer_def crowd_point_def)

lemma crowd_array_set:
  "array_set (map (\<lambda>i. Some (crowd_peer i)) [0..<n]) n (crowd_peer n) =
     map (\<lambda>i. Some (crowd_peer i)) [0..<Suc n]"
  by (simp add: array_set_def)

lemma crowd_fields:
  "boundary_ls (crowd_run n) = world_1000" "capacity_ls (crowd_run n) = 1"
  "peers (crowd_run n) = map (\<lambda>i. Some (crowd_peer i)) [0..<n]"
  "boundary_ls crowd_state = world_1000" "capacity_ls crowd_state = 1"
  "worldSize crowd_state = 1000"
  by (simp_all add: crowd_run_def crowd_state_def crowd_config_def LightSeed_fields
      DEFAULT_CONFIG_def world_1000_def)

lemma crowd_update:
  assumes "n < 54"
  shows "apply_call_fl double (crowd_run n) (crowd_call n) = Some (crowd_run (Suc n))"
proof -
  let ?ps = "map (\<lambda>i. Some (crowd_peer i)) [0..<Suc n]"
  let ?t = "crowd_tree False (map crowd_point [0..<Suc n])"
  have a: "array_set (peers (crowd_run n)) n
      \<lparr>peer_idx = n, peer_x = 750, peer_y = 750, peer_vx = 0, peer_vy = 0,
       peer_tdf = 1, peer_latency = 0\<rparr> = ?ps"
    using crowd_array_set [of n] by (simp only: crowd_fields crowd_peer_def)
  have b: "map peer_point (live ?ps) = map crowd_point [0..<Suc n]"
    by (simp only: crowd_live crowd_peer_point)
  have c: "insert_seq_fl double (QuadTree (boundary_ls (crowd_run n)) (capacity_ls (crowd_run n)))
      (map peer_point (live ?ps)) = Some (?t, map crowd_point [0..<Suc n])"
    using crowd_rebuild [of "Suc n"] assms by (simp only: b crowd_fields QuadTree_def)
  have d: "crowd_run (Suc n) = (crowd_run n)\<lparr>peers := ?ps, quadtree := ?t\<rparr>"
    by (simp add: crowd_run_def del: upt_Suc)
  have "updatePeer_fl double (crowd_run n) n 750 750 0 0 1 0 = Some (crowd_run (Suc n))"
    unfolding updatePeer_fl_unfold a using c d by blast
  then show ?thesis by (simp add: crowd_call_def)
qed

lemma crowd_last:
  "apply_call_fl double (crowd_run 54) (crowd_call 54) = Some crowd_state"
proof -
  let ?ps = "map (\<lambda>i. Some (crowd_peer i)) [0..<55]"
  let ?t = "crowd_tree True (map crowd_point [0..<54])"
  have e: "Suc 54 = 55" by simp
  have a: "array_set (peers (crowd_run 54)) 54
      \<lparr>peer_idx = 54, peer_x = 750, peer_y = 750, peer_vx = 0, peer_vy = 0,
       peer_tdf = 1, peer_latency = 0\<rparr> = ?ps"
    using crowd_array_set [of 54] by (simp only: crowd_fields crowd_peer_def e)
  have b: "map peer_point (live ?ps) = map crowd_point [0..<55]"
    by (simp only: crowd_live crowd_peer_point)
  have c: "insert_seq_fl double
      (QuadTree (boundary_ls (crowd_run 54)) (capacity_ls (crowd_run 54)))
      (map peer_point (live ?ps)) = Some (?t, map crowd_point [0..<54])"
    using crowd_rebuild_55 by (simp only: b crowd_fields QuadTree_def)
  have d: "crowd_state = (crowd_run 54)\<lparr>peers := ?ps, quadtree := ?t\<rparr>"
    by (simp add: crowd_run_def crowd_state_def del: upt_Suc)
  have "updatePeer_fl double (crowd_run 54) 54 750 750 0 0 1 0 = Some crowd_state"
    unfolding updatePeer_fl_unfold a using c d by blast
  then show ?thesis by (simp add: crowd_call_def)
qed

lemma run_fl_snoc:
  "run_fl fl s (cs @ [c]) = do { s' \<leftarrow> run_fl fl s cs; apply_call_fl fl s' c }"
  by (induct cs arbitrary: s) (simp_all split: bind_splits)

lemma crowd_run_0: "crowd_run 0 = LightSeed crowd_config"
  by (simp add: crowd_run_def LightSeed_def crowd_config_def DEFAULT_CONFIG_def QuadTree_def
      world_1000_def Let_def)

lemma crowd_run_reached:
  "n \<le> 54 \<Longrightarrow> run_fl double (LightSeed crowd_config) (map crowd_call [0..<n]) = Some (crowd_run n)"
proof (induct n)
  case 0 show ?case by (simp add: crowd_run_0)
next
  case (Suc n)
  then have "run_fl double (LightSeed crowd_config) (map crowd_call [0..<n]) = Some (crowd_run n)"
    by simp
  moreover from Suc.prems have "n < 54" by simp
  ultimately show ?case by (simp add: run_fl_snoc crowd_update)
qed

lemma crowd_state_reached:
  "run_fl double (LightSeed crowd_config) (map crowd_call [0..<55]) = Some crowd_state"
proof -
  have "[0..<55] = [0..<54] @ [54]" by (simp add: upt_rec)
  then have "map crowd_call [0..<55] = map crowd_call [0..<54] @ [crowd_call 54]" by simp
  with crowd_run_reached [of 54] crowd_last show ?thesis by (simp only: run_fl_snoc) simp
qed

lemma crowd_counts:
  "live (peers crowd_state) = map crowd_peer [0..<55]"
  "all_points (quadtree crowd_state) = map crowd_point [0..<54]"
  "list_all (in_world crowd_state) (map crowd_peer [0..<55])"
proof -
  show "live (peers crowd_state) = map crowd_peer [0..<55]"
    by (simp add: crowd_state_def crowd_live del: upt_Suc)
  show "all_points (quadtree crowd_state) = map crowd_point [0..<54]"
    by (simp add: crowd_state_def all_points_crowd_tree del: upt_Suc)
  show "list_all (in_world crowd_state) (map crowd_peer [0..<55])"
    by (simp add: list_all_iff in_world_def crowd_peer_def crowd_fields del: upt_Suc)
qed

section \<open>The claims\<close>

subsection \<open>C1: Self-exclusion\<close>

text \<open>
  C1 (self-exclusion) is what the loop intends (\<open>if (j === senderIdx) continue; // Skip
  sender\<close>), but the final \<open>filter((_, i) => weights[i] !== undefined)\<close> keeps the first
  \<open>weights.length\<close> candidates instead of the candidates that were given a weight. With
  two participants in range of each other, the sender is the first candidate and is the
  one returned.
\<close>

theorem selectPeers_returns_sender:
  "run (LightSeed DEFAULT_CONFIG) two_peers_calls = Some two_peers_state \<and>
   selectPeers two_peers_state 0 0 = Inr ([\<lparr>peerIdx = 0, prob = 39 / 40\<rparr>], two_peers_state)"
proof -
  let ?w = "weight two_peers_state (new_peer 0 100 100) (new_peer 0 100 100) (new_peer 1 150 100)"
  have s: "array_get (peers two_peers_state) 0 = Some (new_peer 0 100 100)"
    by (simp add: two_peers_state_def array_get_def)
  have w: "weights_loop two_peers_state (new_peer 0 100 100) 0 0
             (peersInRange two_peers_state (new_peer 0 100 100)) [] = Inr [?w]"
    by (simp add: two_peers_candidates) (simp add: two_peers_state_def array_get_def)
  have "0 < ?w"
    by (rule weight_pos) (simp_all add: two_peers_state_def LightSeed_fields DEFAULT_CONFIG_def)
  then have "code_prob two_peers_state [?w] ?w = 39 / 40"
    by (simp add: code_prob_single two_peers_state_def LightSeed_fields DEFAULT_CONFIG_def)
  with selectPeers_sender [OF s w] two_peers_run show ?thesis
    by (simp add: two_peers_candidates)
qed

subsection \<open>C2: Shape of the quadtree\<close>

text \<open>
  C2, as the code has it. After any sequence of \<open>insert\<close> calls on a new tree of capacity
  \<open>C\<close>, every node is either a leaf holding at most \<open>C\<close> points or a divided node with its
  four children that holds, itself, exactly \<open>C\<close> points; and whatever is inserted
  afterwards, every divided node stays divided and holds the very points it held (a
  leaf only gains points at the end of its sequence until it is full, and keeps them
  when it is subdivided).
\<close>

theorem quadtree_shape_invariant:
  assumes "insert_seq (QuadTree b C) qs = Some (t, ps)"
    and "insert_seq t qs' = Some (t', ps')"
  shows "shape C t \<and> shape C t' \<and> stays_divided t t'"
  using insert_seq_invariants [OF assms(1), of C] insert_seq_invariants [OF assms(2), of C]
  by (simp add: QuadTree_def)

theorem quadtree_shape_invariant_witness:
  "insert_seq (QuadTree example_boundary 1) example_points =
     Some (example_tree, [example_p0, example_p1]) \<and>
   insert_seq example_tree [example_p3] = Some (example_tree', [example_p3]) \<and>
   shape 1 example_tree \<and> shape 1 example_tree' \<and>
   stays_divided example_tree example_tree' \<and> points example_tree' = [example_p0]"
  using quadtree_shape_invariant [OF example_insert_seq example_insert_more]
    example_insert_seq example_insert_more
  by (simp add: example_tree'_def)

text \<open>
  C2 as the specification states it (an internal node holds zero points) fails: with
  capacity 1, the second accepted point subdivides the root, and the root keeps the first.
\<close>

theorem quadtree_internal_node_keeps_points:
  "insert_seq (QuadTree example_boundary 1) example_points =
     Some (example_tree, [example_p0, example_p1]) \<and>
   \<not> claimed_shape 1 example_tree"
  using example_insert_seq by (simp add: example_tree_def)

subsection \<open>C3: Range queries\<close>

text \<open>
  C3. For the tree left by any sequence of \<open>insert\<close> calls on a new tree, and any circle
  of radius \<open>r \<ge> 0\<close>, \<open>query\<close> returns exactly the accepted points whose Euclidean distance
  from the centre is at most \<open>r\<close>, each as often as it was accepted.
\<close>

theorem query_range_correct:
  assumes "insert_seq (QuadTree b c) qs = Some (t, ps)" and "0 \<le> r"
  shows "mset (query t \<lparr>range_cx = cx, range_cy = cy, range_r = r\<rparr> []) =
         {#p \<in># mset ps. sqrt ((point_x p - cx)\<^sup>2 + (point_y p - cy)\<^sup>2) \<le> r#}"
proof -
  let ?rg = "\<lparr>range_cx = cx, range_cy = cy, range_r = r\<rparr>"
  have "bounded (QuadTree b c)" by (simp add: QuadTree_def)
  with insert_seq_invariants [OF assms(1)]
  have bt: "bounded t" and pts: "mset (all_points t) = mset ps"
    by (simp_all add: QuadTree_def)
  have "mset (query t ?rg []) = {#p \<in># mset ps. pointInRange p ?rg#}"
    using query_mset [OF bt, of ?rg "[]"] pts by simp
  also have "\<dots> = {#p \<in># mset ps. sqrt ((point_x p - cx)\<^sup>2 + (point_y p - cy)\<^sup>2) \<le> r#}"
    using assms(2) by (intro filter_mset_cong refl) (simp add: pointInRange_dist)
  finally show ?thesis .
qed

theorem query_range_correct_witness:
  "insert_seq (QuadTree example_boundary 1) example_points =
     Some (example_tree, [example_p0, example_p1]) \<and> (0::real) \<le> 5 \<and>
   mset (query example_tree \<lparr>range_cx = 10, range_cy = 15, range_r = 5\<rparr> []) =
     {#p \<in># mset [example_p0, example_p1].
        sqrt ((point_x p - 10)\<^sup>2 + (point_y p - 15)\<^sup>2) \<le> 5#}"
  using query_range_correct [OF example_insert_seq, of 5 10 15] example_insert_seq
  by simp

subsection \<open>C4: What insert returns\<close>

text \<open>
  C4, as the code has it. For every node and every point, under any rounding \<open>fl\<close> of the
  arithmetic (\<open>double\<close> for the source): \<open>insert\<close> returns, when every capacity in the
  node is at least 1, and, whatever the capacities, under the rounding of doubles when
  the \<open>x\<close> origin of every region is a double. Whenever it returns, the region and the
  capacity of the node are unchanged, a divided node stays divided with the points it
  held, and the points of the tree are the old ones, plus the new point exactly when the
  result is true. True is returned only for a point inside the region as \<open>inBoundary\<close>
  computes it; a point outside is rejected with the tree unchanged; a point inside is
  rejected only by a node that is full or divided, and such a node is divided afterwards.
  With exact arithmetic, on nodes whose descendants have the regions and capacity
  \<open>subdivide\<close> gives, with capacity at least 1, \<open>insert\<close> returns true exactly for the
  points of the region.
\<close>

theorem insert_fl_result:
  "(cap_pos t \<or> fl = double \<and> origin_rounded double t \<longrightarrow> insert_fl fl t p \<noteq> None) \<and>
   (insert_fl fl t p = Some (r, t') \<longrightarrow>
      boundary t' = boundary t \<and> capacity t' = capacity t \<and> stays_divided t t' \<and>
      mset (all_points t') = mset (all_points t) + (if r then {#p#} else {#}) \<and>
      (r \<longrightarrow> inBoundary_fl fl t p) \<and>
      (\<not> inBoundary_fl fl t p \<longrightarrow> t' = t) \<and>
      (inBoundary_fl fl t p \<and> \<not> r \<longrightarrow>
         divided t' \<and> \<not> (length (points t) < capacity t \<and> \<not> divided t))) \<and>
   (tiled t \<and> 1 \<le> capacity t \<longrightarrow>
      (\<exists>t''. insert_fl (\<lambda>x. x) t p = Some (inBoundary t p, t'')))"
proof (intro conjI impI)
  assume "cap_pos t \<or> fl = double \<and> origin_rounded double t"
  then show "insert_fl fl t p \<noteq> None"
  proof
    assume "cap_pos t"
    from insert_fl_total [OF this, of fl p] show ?thesis by auto
  next
    assume "fl = double \<and> origin_rounded double t"
    with insert_fl_returns [OF halving_ends_double, of t p] show ?thesis by simp
  qed
next
  assume a: "insert_fl fl t p = Some (r, t')"
  from insert_fl_frame [OF a]
  show "boundary t' = boundary t" "capacity t' = capacity t"
    "mset (all_points t') = mset (all_points t) + (if r then {#p#} else {#})"
    by simp_all
  from insert_fl_stays_divided [OF a] show "stays_divided t t'" .
  { assume r then show "inBoundary_fl fl t p" using insert_fl_frame [OF a] by simp }
  { assume "\<not> inBoundary_fl fl t p"
    then show "t' = t" using insert_fl_outside_same [OF a] by simp }
  { assume "inBoundary_fl fl t p \<and> \<not> r"
    with insert_fl_inside_False [OF a]
    show "divided t'" "\<not> (length (points t) < capacity t \<and> \<not> divided t)" by blast+ }
next
  assume t: "tiled t \<and> 1 \<le> capacity t"
  then have "cap_pos t" by (simp add: tiled_cap_pos)
  from insert_fl_exact [OF this, of p] insert_qt_total [of t p] t
  show "\<exists>t''. insert_fl (\<lambda>x. x) t p = Some (inBoundary t p, t'')" by simp
qed

theorem insert_fl_result_witness:
  "cap_pos (Leaf far_boundary 1 [far_p0]) \<and>
   inBoundary_fl double (Leaf far_boundary 1 [far_p0]) far_p1 \<and>
   insert_fl double (Leaf far_boundary 1 [far_p0]) far_p1 =
     Some (False, far_children 1 [far_p0]) \<and>
   stays_divided (Leaf far_boundary 1 [far_p0]) (far_children 1 [far_p0]) \<and>
   mset (all_points (far_children 1 [far_p0])) = mset (all_points (Leaf far_boundary 1 [far_p0])) \<and>
   divided (far_children 1 [far_p0]) \<and>
   inBoundary_fl double (Leaf far_boundary 1 []) far_p0 \<and>
   insert_fl double (Leaf far_boundary 1 []) far_p0 = Some (True, Leaf far_boundary 1 [far_p0]) \<and>
   \<not> inBoundary_fl double (Leaf far_boundary 1 [far_p0]) example_p2 \<and>
   insert_fl double (Leaf far_boundary 1 [far_p0]) example_p2 =
     Some (False, Leaf far_boundary 1 [far_p0]) \<and>
   origin_rounded double (Leaf far_boundary 0 []) \<and>
   inBoundary_fl double (Leaf far_boundary 0 []) far_p0 \<and>
   insert_fl double (Leaf far_boundary 0 []) far_p0 = Some (False, far_children 0 []) \<and>
   divided (far_children 0 []) \<and>
   tiled (Leaf example_boundary 1 [example_p0]) \<and>
   1 \<le> capacity (Leaf example_boundary 1 [example_p0]) \<and>
   inBoundary (Leaf example_boundary 1 [example_p0]) example_p1 \<and>
   (\<exists>t''. insert_fl (\<lambda>x. x) (Leaf example_boundary 1 [example_p0]) example_p1 = Some (True, t''))"
proof -
  have zero: "origin_rounded double (Leaf far_boundary 0 [])"
    "inBoundary_fl double (Leaf far_boundary 0 []) far_p0"
    by (simp_all add: inBoundary_fl_def far_boundary_def far_p0_def double_far_0 double_simps)
  have out: "\<not> inBoundary_fl double (Leaf far_boundary 1 [far_p0]) example_p2"
    by (simp add: inBoundary_fl_def far_boundary_def example_p2_def)
  have first: "inBoundary_fl double (Leaf far_boundary 1 []) far_p0"
    by (simp add: inBoundary_fl_def far_boundary_def far_p0_def double_simps)
  show ?thesis
    using insert_fl_result [of "Leaf far_boundary 1 [far_p0]" double far_p1 False
        "far_children 1 [far_p0]"]
      insert_fl_result [of "Leaf far_boundary 1 []" double far_p0 True
        "Leaf far_boundary 1 [far_p0]"]
      insert_fl_result [of "Leaf far_boundary 1 [far_p0]" double example_p2 False
        "Leaf far_boundary 1 [far_p0]"]
      insert_fl_result [of "Leaf far_boundary 0 []" double far_p0 False "far_children 0 []"]
      insert_fl_result [of "Leaf example_boundary 1 [example_p0]" "\<lambda>x. x" example_p1]
      far_insert_1 far_insert_first far_insert_0 far_inside out first zero
      insert_fl_outside [OF out]
    by (simp add: inBoundary_def example_boundary_def example_p1_def)
qed

text \<open>
  C4 as the specification states it (true for every point of the region, the tree
  unchanged whenever the result is false) fails. The leaf of capacity 1 with the region
  of side 2 at \<open>x = 2 ^ 53\<close> holds one point; a second point at the same position lies
  in the region, but in none of the four quadrants, whose high bound \<open>2 ^ 53 + 1\<close>
  rounds to their low bound: \<open>insert\<close> returns false and leaves the leaf subdivided. With
  capacity 0 the first point already meets this fate.
\<close>

theorem insert_rejects_point_inside_region:
  "inBoundary (Leaf far_boundary 1 [far_p0]) far_p1 \<and>
   inBoundary_fl double (Leaf far_boundary 1 [far_p0]) far_p1 \<and>
   insert_fl double (Leaf far_boundary 1 [far_p0]) far_p1 =
     Some (False, far_children 1 [far_p0]) \<and>
   far_children 1 [far_p0] \<noteq> Leaf far_boundary 1 [far_p0] \<and>
   inBoundary (Leaf far_boundary 0 []) far_p0 \<and>
   insert_fl double (Leaf far_boundary 0 []) far_p0 = Some (False, far_children 0 []) \<and>
   far_children 0 [] \<noteq> Leaf far_boundary 0 []"
  using far_inside far_insert_1 far_insert_0
  by (simp add: far_children_def inBoundary_def far_boundary_def far_p0_def)

subsection \<open>C5: Probabilities\<close>

text \<open>
  C5, as the code has it. With \<open>\<epsilon>\<close> in \<open>[0, 1]\<close>, positive \<open>d0\<close> and \<open>v0\<close>, non-negative
  \<open>\<beta>\<close> and non-zero \<open>\<sigma>\<close> (so that no division of the source meets a zero divisor), a
  \<open>selectPeers\<close> call that returns a non-empty result returns, in order, the probabilities
  \<open>(1 - \<epsilon>) \<cdot> (w / \<Sigma>w) + \<epsilon> / N\<close> of the weights \<open>w\<close> of the scored candidates, where \<open>\<Sigma>w\<close> is
  replaced by 1 when it is zero and \<open>N\<close> is the length of the participant array (holes
  included); each is at least \<open>\<epsilon> / N\<close>, none is negative, none exceeds 1.
\<close>

theorem selectPeers_probabilities:
  assumes "0 \<le> epsilon s" and "epsilon s \<le> 1" and "sigma s \<noteq> 0"
    and "0 < d0 s" and "0 < v0 s" and "0 \<le> beta s"
    and "selectPeers s senderIdx playerIdx = Inr (res, s')" and "res \<noteq> []"
  shows "\<exists>sender ws. array_get (peers s) senderIdx = Some sender \<and>
           weights_loop s sender senderIdx playerIdx (peersInRange s sender) [] = Inr ws \<and>
           map prob res = map (code_prob s ws) ws \<and>
           (\<forall>e \<in> set res. epsilon s / real (length (peers s)) \<le> prob e \<and>
                            0 \<le> prob e \<and> prob e \<le> 1)"
proof -
  from assms(7,8) obtain sender where s: "array_get (peers s) senderIdx = Some sender"
    by (cases "array_get (peers s) senderIdx") (auto simp: selectPeers_def)
  from selectPeers_InrE [OF assms(7) s] obtain ws where
    w: "weights_loop s sender senderIdx playerIdx (peersInRange s sender) [] = Inr ws"
    and r: "res = map (\<lambda>(j, w). \<lparr>peerIdx = j, prob = code_prob s ws w\<rparr>)
                    (zip (peersInRange s sender) ws)"
    and l: "length ws \<le> length (peersInRange s sender)"
    and f: "\<forall>w \<in> set ws. \<exists>player pr. w = weight s sender player pr"
    by blast
  have "map prob res = map (code_prob s ws) (map snd (zip (peersInRange s sender) ws))"
    by (simp add: r case_prod_unfold)
  with l have p: "map prob res = map (code_prob s ws) ws" by (simp add: map_snd_zip_short)
  from f weight_pos [OF assms(4,5,6)] have pos: "\<forall>w \<in> set ws. 0 < w" by auto
  from s have N: "1 \<le> length (peers s)" by (auto simp: array_get_def split: if_splits)
  have "epsilon s / real (length (peers s)) \<le> prob e \<and> 0 \<le> prob e \<and> prob e \<le> 1"
    if "e \<in> set res" for e
  proof -
    from that have "prob e \<in> set (map prob res)" by simp
    with p obtain w where "w \<in> set ws" "prob e = code_prob s ws w" by auto
    with code_prob_bounds [OF assms(1,2) pos _ N] show ?thesis by simp
  qed
  with s w p show ?thesis by blast
qed

theorem selectPeers_probabilities_witness:
  "0 \<le> epsilon sparse_state \<and> epsilon sparse_state \<le> 1 \<and> sigma sparse_state \<noteq> 0 \<and>
   0 < d0 sparse_state \<and> 0 < v0 sparse_state \<and> 0 \<le> beta sparse_state \<and>
   selectPeers sparse_state 2 2 = Inr ([\<lparr>peerIdx = 0, prob = 29 / 30\<rparr>], sparse_state) \<and>
   [\<lparr>peerIdx = 0, prob = 29 / 30\<rparr>] \<noteq> [] \<and>
   map prob [\<lparr>peerIdx = 0, prob = 29 / 30\<rparr>] =
     map (code_prob sparse_state [sparse_weight]) [sparse_weight] \<and>
   epsilon sparse_state / real (length (peers sparse_state))
     \<le> prob \<lparr>peerIdx = 0, prob = 29 / 30\<rparr> \<and>
   0 \<le> prob \<lparr>peerIdx = 0, prob = 29 / 30\<rparr> \<and> prob \<lparr>peerIdx = 0, prob = 29 / 30\<rparr> \<le> 1"
proof -
  have c: "0 \<le> epsilon sparse_state" "epsilon sparse_state \<le> 1" "sigma sparse_state \<noteq> 0"
    "0 < d0 sparse_state" "0 < v0 sparse_state" "0 \<le> beta sparse_state"
    by (simp_all add: sparse_fields)
  have n: "[\<lparr>peerIdx = 0, prob = 29 / 30 :: real\<rparr>] \<noteq> []" by simp
  have s: "array_get (peers sparse_state) 2 = Some (new_peer 2 150 100)"
    by (simp add: sparse_fields array_get_def)
  from selectPeers_probabilities [OF c sparse_select n] s sparse_weights
  have "map prob [\<lparr>peerIdx = 0, prob = 29 / 30\<rparr>] =
          map (code_prob sparse_state [sparse_weight]) [sparse_weight]"
    and "epsilon sparse_state / real (length (peers sparse_state))
           \<le> prob \<lparr>peerIdx = 0, prob = 29 / 30\<rparr>"
    and "0 \<le> prob \<lparr>peerIdx = 0, prob = 29 / 30 :: real\<rparr>"
    and "prob \<lparr>peerIdx = 0, prob = 29 / 30 :: real\<rparr> \<le> 1"
    by auto
  with c sparse_select n show ?thesis by blast
qed

text \<open>
  C5 as the specification states it, with \<open>N\<close> the number of participants, fails when
  the ids in use are not consecutive: with participants 0 and 2 only, the array has
  length 3 and the code divides \<open>\<epsilon>\<close> by 3, not by 2.
\<close>

theorem selectPeers_divides_by_array_length:
  "run (LightSeed DEFAULT_CONFIG) sparse_calls = Some sparse_state \<and>
   selectPeers sparse_state 2 2 = Inr ([\<lparr>peerIdx = 0, prob = 29 / 30\<rparr>], sparse_state) \<and>
   weights_loop sparse_state (new_peer 2 150 100) 2 2
     (peersInRange sparse_state (new_peer 2 150 100)) [] = Inr [sparse_weight] \<and>
   length (live (peers sparse_state)) = 2 \<and>
   claimed_prob sparse_state [sparse_weight] sparse_weight = 39 / 40 \<and>
   (29 / 30 :: real) \<noteq> 39 / 40"
  using sparse_run sparse_select sparse_weights sparse_weight_pos
  by (simp add: claimed_prob_def sparse_fields)

subsection \<open>C6: Causal horizon\<close>

text \<open>
  C6, as the code has it. In a reachable state in which no index entry is stale (each
  indexed point carries the position of the current record of its id, as after every
  \<open>updatePeer\<close>), every peer returned by \<open>selectPeers\<close> has a record, and that record lies
  within \<open>|R|\<close> of the sender, \<open>R = nCells \<times> (worldSize / 2^maxDepth) \<times> deltaT\<close>.
\<close>

theorem selectPeers_within_horizon:
  assumes "run (LightSeed cfg) calls = Some s" and "index_synced s"
    and "array_get (peers s) senderIdx = Some sender"
    and "selectPeers s senderIdx playerIdx = Inr (res, s')"
  shows "\<forall>e \<in> set res. \<exists>pr. array_get (peers s) (peerIdx e) = Some pr \<and>
           sqrt ((peer_x pr - peer_x sender)\<^sup>2 + (peer_y pr - peer_y sender)\<^sup>2) \<le> \<bar>horizon s\<bar>"
proof
  fix e assume e: "e \<in> set res"
  let ?rg = "\<lparr>range_cx = peer_x sender, range_cy = peer_y sender,
              range_r = c_ls s * deltaT s\<rparr>"
  note I = reachable_inv [OF assms(1), unfolded engine_inv_def derived_ok_def]
  from I have h: "c_ls s * deltaT s = horizon s" by (simp add: horizon_def)
  from selectPeers_InrE [OF assms(4,3)] obtain ws where
    r: "res = map (\<lambda>(j, w). \<lparr>peerIdx = j, prob = code_prob s ws w\<rparr>)
                    (zip (peersInRange s sender) ws)" by blast
  with e obtain j w where "(j, w) \<in> set (zip (peersInRange s sender) ws)" "peerIdx e = j"
    by auto
  then have "peerIdx e \<in> set (peersInRange s sender)" by (auto dest: set_zip_leftD)
  then obtain p where p: "p \<in> set (query (quadtree s) ?rg [])" "point_idx p = peerIdx e"
    by (auto simp: peersInRange_def)
  from I query_sound [OF _ p(1)] have q: "p \<in> set (all_points (quadtree s))" "pointInRange p ?rg"
    by simp_all
  from assms(2) q(1) obtain pr where pr: "array_get (peers s) (point_idx p) = Some pr"
    "peer_x pr = point_x p" "peer_y pr = point_y p" by (auto simp: index_synced_def)
  from pointInRange_abs_dist [OF q(2)] pr h p(2)
  show "\<exists>pr. array_get (peers s) (peerIdx e) = Some pr \<and>
           sqrt ((peer_x pr - peer_x sender)\<^sup>2 + (peer_y pr - peer_y sender)\<^sup>2) \<le> \<bar>horizon s\<bar>"
    by auto
qed

theorem selectPeers_within_horizon_witness:
  "run (LightSeed scenario_config) (scenario_inserts @ scenario_updates scenario_v scenario_lat) =
     Some (scenario_state scenario_v scenario_lat) \<and>
   index_synced (scenario_state scenario_v scenario_lat) \<and>
   array_get (peers (scenario_state scenario_v scenario_lat)) 0 =
     Some (scenario_peer scenario_v scenario_lat 0 100 100 0.9) \<and>
   selectPeers (scenario_state scenario_v scenario_lat) 0 0 =
     Inr ([\<lparr>peerIdx = 0, prob = 77 / 80\<rparr>], scenario_state scenario_v scenario_lat) \<and>
   (\<exists>pr. array_get (peers (scenario_state scenario_v scenario_lat))
            (peerIdx \<lparr>peerIdx = 0, prob = 77 / 80 :: real\<rparr>) = Some pr \<and>
      sqrt ((peer_x pr - peer_x (scenario_peer scenario_v scenario_lat 0 100 100 0.9))\<^sup>2 +
            (peer_y pr - peer_y (scenario_peer scenario_v scenario_lat 0 100 100 0.9))\<^sup>2)
        \<le> \<bar>horizon (scenario_state scenario_v scenario_lat)\<bar>)"
proof -
  let ?S = "scenario_state scenario_v scenario_lat"
  have s: "array_get (peers ?S) 0 = Some (scenario_peer scenario_v scenario_lat 0 100 100 0.9)"
    by (simp add: scenario_fields array_get_def)
  from selectPeers_within_horizon [OF scenario_run scenario_synced s scenario_select]
  have "\<exists>pr. array_get (peers ?S) (peerIdx \<lparr>peerIdx = 0, prob = 77 / 80 :: real\<rparr>) = Some pr \<and>
      sqrt ((peer_x pr - peer_x (scenario_peer scenario_v scenario_lat 0 100 100 0.9))\<^sup>2 +
            (peer_y pr - peer_y (scenario_peer scenario_v scenario_lat 0 100 100 0.9))\<^sup>2)
        \<le> \<bar>horizon ?S\<bar>"
    by simp
  with scenario_run scenario_synced s scenario_select show ?thesis by blast
qed

text \<open>
  C6 as the specification states it, for every state, fails after a repeated
  \<open>insertPeer\<close>: the index keeps the old point of participant 1 at (20, 10), inside the
  horizon 62.5 of the sender at (10, 10), while its record has moved to (900, 900);
  participant 1 is returned.
\<close>

theorem selectPeers_returns_stale_peer_beyond_horizon:
  "run (LightSeed DEFAULT_CONFIG) stale_calls = Some stale_state \<and>
   array_get (peers stale_state) 0 = Some (new_peer 0 10 10) \<and>
   selectPeers stale_state 0 0 = Inr ([\<lparr>peerIdx = 1, prob = 39 / 40\<rparr>], stale_state) \<and>
   array_get (peers stale_state) 1 = Some (new_peer 1 900 900) \<and>
   horizon stale_state = 125 / 2 \<and>
   \<not> sqrt ((peer_x (new_peer 1 900 900) - peer_x (new_peer 0 10 10))\<^sup>2 +
           (peer_y (new_peer 1 900 900) - peer_y (new_peer 0 10 10))\<^sup>2) \<le> horizon stale_state"
proof -
  have h: "horizon stale_state = 125 / 2"
    by (simp add: horizon_def stale_state_def LightSeed_fields DEFAULT_CONFIG_def)
  have "(125 / 2 :: real) < sqrt ((900 - 10)\<^sup>2 + (900 - 10)\<^sup>2)"
    by (rule real_less_rsqrt) (simp add: power2_eq_square)
  then have "\<not> sqrt ((peer_x (new_peer 1 900 900) - peer_x (new_peer 0 10 10))\<^sup>2 +
           (peer_y (new_peer 1 900 900) - peer_y (new_peer 0 10 10))\<^sup>2) \<le> horizon stale_state"
    by (simp add: h new_peer_def)
  with stale_run stale_select h show ?thesis by (simp add: stale_fields array_get_def)
qed

subsection \<open>C7: Absent sender\<close>

text \<open>
  C7. When no record exists for the sender, \<open>selectPeers\<close> returns the empty sequence as a
  normal result and the engine is as it was.
\<close>

theorem selectPeers_absent_sender:
  "array_get (peers s) senderIdx = None \<Longrightarrow> selectPeers s senderIdx playerIdx = Inr ([], s)"
  by (simp add: selectPeers_def)

theorem selectPeers_absent_sender_witness:
  "array_get (peers two_peers_state) 7 = None \<and>
   selectPeers two_peers_state 7 0 = Inr ([], two_peers_state)"
proof -
  have h: "array_get (peers two_peers_state) 7 = None"
    by (simp add: two_peers_fields array_get_def)
  from selectPeers_absent_sender [OF h, of 0] h show ?thesis by simp
qed

subsection \<open>C8: The scenario\<close>

text \<open>
  C8, as the code has it. In the scenario (world side 800, the four participants, all
  updated, whatever the velocities and latencies), the horizon is 50; the index query
  around participant 0 yields the candidates 0 and 1: participant 1, at distance exactly
  50, is inside by the inclusive comparison, participant 2, at distance 100, and
  participant 3 are outside. \<open>selectPeers(0, 0)\<close> returns one entry, which is neither
  participant 2 nor participant 3; its probability is 0.9625, between \<open>\<epsilon> / N = 0.0125\<close>
  and 1.
\<close>

theorem scenario_selectPeers:
  "run (LightSeed scenario_config) (scenario_inserts @ scenario_updates v lat) =
     Some (scenario_state v lat) \<and>
   horizon (scenario_state v lat) = 50 \<and>
   peersInRange (scenario_state v lat) (scenario_peer v lat 0 100 100 0.9) = [0, 1] \<and>
   (\<exists>res. selectPeers (scenario_state v lat) 0 0 = Inr (res, scenario_state v lat) \<and>
      2 \<notin> peerIdx ` set res \<and> 3 \<notin> peerIdx ` set res \<and> map prob res = [77 / 80]) \<and>
   epsilon (scenario_state v lat) / real (length (peers (scenario_state v lat))) = 1 / 80 \<and>
   (1 / 80 :: real) \<le> 77 / 80 \<and> (0 :: real) \<le> 77 / 80 \<and> (77 / 80 :: real) \<le> 1"
  using scenario_run [of v lat] scenario_horizon [of v lat] scenario_candidates [of v lat]
    scenario_select [of v lat]
  by (simp add: scenario_fields)

text \<open>
  C8 as the specification states it fails: participant 2 is at distance 100 from
  participant 0, twice the horizon, and is not returned.
\<close>

theorem scenario_excludes_peer_2:
  "run (LightSeed scenario_config) (scenario_inserts @ scenario_updates scenario_v scenario_lat) =
     Some (scenario_state scenario_v scenario_lat) \<and>
   selectPeers (scenario_state scenario_v scenario_lat) 0 0 =
     Inr ([\<lparr>peerIdx = 0, prob = 77 / 80\<rparr>], scenario_state scenario_v scenario_lat) \<and>
   2 \<notin> peerIdx ` set [\<lparr>peerIdx = 0, prob = 77 / 80 :: real\<rparr>]"
  using scenario_run [of scenario_v scenario_lat] scenario_select [of scenario_v scenario_lat]
  by simp

subsection \<open>C9: The index after updatePeer\<close>

text \<open>
  C9, as the code has it. In any state reached from the constructor by \<open>insertPeer\<close> and
  \<open>updatePeer\<close> calls, under any rounding \<open>fl\<close> of the arithmetic of the quadtree
  (\<open>double\<close> for the source): \<open>updatePeer\<close> returns, with capacity at least 1, and,
  whatever the capacity, under the rounding of doubles. Whenever it returns, the store
  holds the new record at \<open>idx\<close>, and the index holds at most one point per stored
  record, each at the position and with the id of its record: no point is stale, but a
  stored record may have no point. With exact arithmetic, capacity at least 1 and every
  stored record in \<open>[0, worldSize)\<close> on both axes, the index holds exactly one point per
  stored record.
\<close>

theorem updatePeer_fl_index:
  assumes "run_fl fl (LightSeed cfg) calls = Some s"
  shows "(1 \<le> capacity_ls s \<or> fl = double \<longrightarrow>
        updatePeer_fl fl s idx x y vx vy tdf latency \<noteq> None) \<and>
     (updatePeer_fl fl s idx x y vx vy tdf latency = Some s' \<longrightarrow>
        peers s' = array_set (peers s) idx
          \<lparr>peer_idx = idx, peer_x = x, peer_y = y, peer_vx = vx, peer_vy = vy,
           peer_tdf = tdf, peer_latency = latency\<rparr> \<and>
        mset (all_points (quadtree s')) \<subseteq># mset (map peer_point (live (peers s')))) \<and>
     (1 \<le> capacity_ls s \<and>
      (\<forall>pr \<in> set (live (array_set (peers s) idx
            \<lparr>peer_idx = idx, peer_x = x, peer_y = y, peer_vx = vx, peer_vy = vy,
             peer_tdf = tdf, peer_latency = latency\<rparr>)).
           0 \<le> peer_x pr \<and> peer_x pr < worldSize s \<and> 0 \<le> peer_y pr \<and> peer_y pr < worldSize s)
      \<longrightarrow> (\<exists>s''. updatePeer_fl (\<lambda>x. x) s idx x y vx vy tdf latency = Some s'' \<and>
             mset (all_points (quadtree s'')) = mset (map peer_point (live (peers s'')))))"
proof (intro conjI impI)
  let ?ps = "array_set (peers s) idx
          \<lparr>peer_idx = idx, peer_x = x, peer_y = y, peer_vx = vx, peer_vy = vy,
           peer_tdf = tdf, peer_latency = latency\<rparr>"
  let ?q0 = "QuadTree (boundary_ls s) (capacity_ls s)"
  {
    assume "1 \<le> capacity_ls s \<or> fl = double"
    then show "updatePeer_fl fl s idx x y vx vy tdf latency \<noteq> None"
    proof
      assume "1 \<le> capacity_ls s"
      then have "cap_pos ?q0" by (simp add: QuadTree_def)
      from insert_seq_fl_total [OF this, of fl "map peer_point (live ?ps)"]
      show ?thesis by (auto simp: updatePeer_fl_def Let_def forEach_insert_fl_seq)
    next
      assume "fl = double"
      with updatePeer_double_returns [OF assms] show ?thesis by simp
    qed
  }
  {
    assume "updatePeer_fl fl s idx x y vx vy tdf latency = Some s'"
    then obtain q acc where
      a: "insert_seq_fl fl ?q0 (map peer_point (live ?ps)) = Some (q, acc)"
      and s': "s' = s\<lparr>peers := ?ps, quadtree := q\<rparr>"
      unfolding updatePeer_fl_unfold by blast
    from s' show "peers s' = ?ps" by simp
    from insert_seq_fl_points [OF a] s'
    show "mset (all_points (quadtree s')) \<subseteq># mset (map peer_point (live (peers s')))"
      by (simp add: QuadTree_def)
  }
  {
    assume h: "1 \<le> capacity_ls s \<and>
      (\<forall>pr \<in> set (live ?ps).
           0 \<le> peer_x pr \<and> peer_x pr < worldSize s \<and> 0 \<le> peer_y pr \<and> peer_y pr < worldSize s)"
    from updatePeer_exact_index [OF reachable_fl_boundary [OF assms], of idx x y vx vy tdf latency]
      h updatePeer_fl_exact [of s idx x y vx vy tdf latency]
    show "\<exists>s''. updatePeer_fl (\<lambda>x. x) s idx x y vx vy tdf latency = Some s'' \<and>
             mset (all_points (quadtree s'')) = mset (map peer_point (live (peers s'')))"
      by simp
  }
qed

theorem updatePeer_fl_index_witness:
  "run_fl double (LightSeed scenario_config)
     (scenario_inserts @ scenario_updates scenario_v scenario_lat) =
     Some (scenario_state scenario_v scenario_lat) \<and>
   1 \<le> capacity_ls (scenario_state scenario_v scenario_lat) \<and>
   (\<exists>s'. updatePeer_fl double (scenario_state scenario_v scenario_lat) 1 160 100 0 0 1 0.05 =
        Some s' \<and>
      peers s' = array_set (peers (scenario_state scenario_v scenario_lat)) 1
            \<lparr>peer_idx = 1, peer_x = 160, peer_y = 100, peer_vx = 0, peer_vy = 0,
             peer_tdf = 1, peer_latency = 0.05\<rparr> \<and>
      mset (all_points (quadtree s')) \<subseteq># mset (map peer_point (live (peers s')))) \<and>
   list_all (\<lambda>pr.
      0 \<le> peer_x pr \<and> peer_x pr < worldSize (scenario_state scenario_v scenario_lat) \<and>
      0 \<le> peer_y pr \<and> peer_y pr < worldSize (scenario_state scenario_v scenario_lat))
     (live (array_set (peers (scenario_state scenario_v scenario_lat)) 1
            \<lparr>peer_idx = 1, peer_x = 160, peer_y = 100, peer_vx = 0, peer_vy = 0,
             peer_tdf = 1, peer_latency = 0.05\<rparr>)) \<and>
   (\<exists>s''. updatePeer_fl (\<lambda>x. x) (scenario_state scenario_v scenario_lat) 1 160 100 0 0 1 0.05 =
        Some s'' \<and>
      mset (all_points (quadtree s'')) = mset (map peer_point (live (peers s'')))) \<and>
   run_fl double (LightSeed (tiny_config 0)) [UpdatePeer 0 0 0 0 0 1 0] = Some tiny_state_0 \<and>
   capacity_ls tiny_state_0 = 0 \<and>
   (\<exists>s'. updatePeer_fl double tiny_state_0 0 0 0 0 0 1 0 = Some s' \<and>
      mset (all_points (quadtree s')) \<subseteq># mset (map peer_point (live (peers s'))))"
proof -
  have c0: "capacity_ls tiny_state_0 = 0"
    by (simp add: tiny_state_0_def tiny_config_def LightSeed_fields)
  note T0 = updatePeer_fl_index [OF tiny_run_0, of 0 0 0 0 0 1 0]
  from T0 obtain s0 where
    u0: "updatePeer_fl double tiny_state_0 0 0 0 0 0 1 0 = Some s0" by blast
  from T0 [of s0] u0
  have z: "\<exists>s'. updatePeer_fl double tiny_state_0 0 0 0 0 0 1 0 = Some s' \<and>
      mset (all_points (quadtree s')) \<subseteq># mset (map peer_point (live (peers s')))"
    by blast
  let ?S = "scenario_state scenario_v scenario_lat"
  note h1 = scenario_run_fl [of scenario_v scenario_lat]
  have h2: "1 \<le> capacity_ls ?S" by (simp add: scenario_fields)
  have h3: "\<forall>pr \<in> set (live (array_set (peers ?S) 1
            \<lparr>peer_idx = 1, peer_x = 160, peer_y = 100, peer_vx = 0, peer_vy = 0,
             peer_tdf = 1, peer_latency = 0.05\<rparr>)).
      0 \<le> peer_x pr \<and> peer_x pr < worldSize ?S \<and> 0 \<le> peer_y pr \<and> peer_y pr < worldSize ?S"
    by (simp add: scenario_fields array_set_def scenario_peer_def)
  note T = updatePeer_fl_index [OF h1, of 1 160 100 0 0 1 "0.05"]
  from T h2 obtain s' where
    u: "updatePeer_fl double ?S 1 160 100 0 0 1 0.05 = Some s'" by blast
  from T [of s'] u h1 h2 h3 z c0 tiny_run_0 show ?thesis
    unfolding list_all_iff by blast
qed

text \<open>
  C9 as the specification states it (exactly one point per stored record whenever the
  records lie in the world) fails. In the default world of side 1000 with capacity 1,
  55 participants, all at (750, 750), each entering by one \<open>updatePeer\<close> call: the
  rebuild of the last call fills the nodes down to a quadrant of side \<open>1000 / 2 ^ 53\<close>
  with the first 54 records, and the quadrants of that one, narrower than half the
  spacing of doubles at 750, reject the 55th: 55 stored records in the world, 54 points.
  The same in the smallest world: in the world of side \<open>tiny\<close> with capacity 1, two
  records at (0, 0); the rebuild puts the first into the root; for the second the root
  subdivides into quadrants of side 0, which reject it. With capacity 0 the first is
  lost the same way.
\<close>

theorem updatePeer_loses_record_in_world:
  "run_fl double (LightSeed crowd_config) (map crowd_call [0..<55]) = Some crowd_state \<and>
   live (peers crowd_state) = map crowd_peer [0..<55] \<and>
   list_all (in_world crowd_state) (live (peers crowd_state)) \<and>
   all_points (quadtree crowd_state) = map crowd_point [0..<54] \<and>
   length (live (peers crowd_state)) = 55 \<and>
   length (all_points (quadtree crowd_state)) = 54 \<and>
   mset (all_points (quadtree crowd_state)) \<noteq>
     mset (map peer_point (live (peers crowd_state))) \<and>
   run_fl double (LightSeed (tiny_config 1)) tiny_calls = Some tiny_state \<and>
   live (peers tiny_state) = [tiny_peer 0, tiny_peer 1] \<and>
   0 \<le> peer_x (tiny_peer 1) \<and> peer_x (tiny_peer 1) < worldSize tiny_state \<and>
   0 \<le> peer_y (tiny_peer 1) \<and> peer_y (tiny_peer 1) < worldSize tiny_state \<and>
   0 \<le> peer_x (tiny_peer 0) \<and> peer_x (tiny_peer 0) < worldSize tiny_state \<and>
   0 \<le> peer_y (tiny_peer 0) \<and> peer_y (tiny_peer 0) < worldSize tiny_state \<and>
   all_points (quadtree tiny_state) = [peer_point (tiny_peer 0)] \<and>
   mset (all_points (quadtree tiny_state)) \<noteq> mset (map peer_point (live (peers tiny_state))) \<and>
   run_fl double (LightSeed (tiny_config 0)) [UpdatePeer 0 0 0 0 0 1 0] = Some tiny_state_0 \<and>
   live (peers tiny_state_0) = [tiny_peer 0] \<and>
   peer_x (tiny_peer 0) < worldSize tiny_state_0 \<and>
   peer_y (tiny_peer 0) < worldSize tiny_state_0 \<and>
   all_points (quadtree tiny_state_0) = [] \<and>
   mset (all_points (quadtree tiny_state_0)) \<noteq>
     mset (map peer_point (live (peers tiny_state_0)))"
proof -
  have "size (mset (all_points (quadtree crowd_state))) \<noteq>
      size (mset (map peer_point (live (peers crowd_state))))"
    by (simp add: crowd_counts)
  then have "mset (all_points (quadtree crowd_state)) \<noteq>
      mset (map peer_point (live (peers crowd_state)))"
    by metis
  moreover have "length (live (peers crowd_state)) = 55"
    "length (all_points (quadtree crowd_state)) = 54"
    by (simp_all add: crowd_counts)
  moreover have "list_all (in_world crowd_state) (live (peers crowd_state))"
    using crowd_counts(3) by (simp only: crowd_counts(1))
  ultimately show ?thesis
    using tiny_run tiny_run_0 tiny_pos crowd_state_reached crowd_counts(1,2)
    by (simp add: tiny_state_def tiny_state_0_def tiny_children_def tiny_peer_def
        LightSeed_fields tiny_config_def del: upt_Suc)
qed

subsection \<open>C10: insertPeer always writes the record\<close>

text \<open>
  C10. In any reachable state with capacity at least 1, \<open>insertPeer\<close> returns and the store
  then holds at \<open>idx\<close> the record with the given position, zero velocity, tdf 1 and zero
  latency, whether or not the index accepted the point. For coordinates outside
  \<open>[0, worldSize)\<close> the index is left as it was and holds no point at these coordinates.
\<close>

theorem insertPeer_record_always_written:
  assumes "run (LightSeed cfg) calls = Some s" and "1 \<le> capacity_ls s"
  shows "\<exists>s'. insertPeer s idx x y = Some s' \<and>
           array_get (peers s') idx =
             Some \<lparr>peer_idx = idx, peer_x = x, peer_y = y, peer_vx = 0, peer_vy = 0,
                   peer_tdf = 1, peer_latency = 0\<rparr> \<and>
           (\<not> (0 \<le> x \<and> x < worldSize s \<and> 0 \<le> y \<and> y < worldSize s) \<longrightarrow>
              quadtree s' = quadtree s \<and>
              (\<forall>p \<in> set (all_points (quadtree s')). \<not> (point_x p = x \<and> point_y p = y)))"
proof -
  let ?p = "\<lparr>point_x = x, point_y = y, point_idx = idx\<rparr>"
  let ?r = "\<lparr>peer_idx = idx, peer_x = x, peer_y = y, peer_vx = 0, peer_vy = 0,
             peer_tdf = 1, peer_latency = 0\<rparr>"
  note I = reachable_inv [OF assms(1), unfolded engine_inv_def derived_ok_def]
  from I assms(2) have "tiled (quadtree s)" "1 \<le> capacity (quadtree s)" by simp_all
  from insert_qt_total [OF this, of ?p] obtain q where
    q: "insert_qt (quadtree s) ?p = Some (inBoundary (quadtree s) ?p, q)" by blast
  let ?s' = "s\<lparr>quadtree := q, peers := array_set (peers s) idx ?r\<rparr>"
  from q have r: "insertPeer s idx x y = Some ?s'" by (simp add: insertPeer_def)
  have in_world: "inBoundary (quadtree s) p \<longleftrightarrow>
      0 \<le> point_x p \<and> point_x p < worldSize s \<and> 0 \<le> point_y p \<and> point_y p < worldSize s" for p
    using I by (simp add: inBoundary_def)
  have out: "quadtree ?s' = quadtree s \<and>
      (\<forall>p \<in> set (all_points (quadtree ?s')). \<not> (point_x p = x \<and> point_y p = y))"
    if "\<not> (0 \<le> x \<and> x < worldSize s \<and> 0 \<le> y \<and> y < worldSize s)"
  proof -
    from that have no: "\<not> inBoundary (quadtree s) ?p" by (simp add: in_world)
    from q insert_qt_outside [OF no] have "q = quadtree s" by simp
    moreover have "\<not> (point_x p = x \<and> point_y p = y)" if "p \<in> set (all_points (quadtree s))" for p
    proof -
      from I that have "inBoundary (quadtree s) p" by (simp add: bounded_all_inside)
      with \<open>\<not> (0 \<le> x \<and> x < worldSize s \<and> 0 \<le> y \<and> y < worldSize s)\<close> show ?thesis
        by (auto simp: in_world)
    qed
    ultimately show ?thesis by simp
  qed
  have "array_get (peers ?s') idx = Some ?r" by (simp add: array_get_array_set_same)
  with r out show ?thesis by (intro exI [of _ ?s']) blast
qed

theorem insertPeer_record_always_written_witness:
  "run (LightSeed DEFAULT_CONFIG) two_peers_calls = Some two_peers_state \<and>
   1 \<le> capacity_ls two_peers_state \<and>
   \<not> (0 \<le> (- 3 :: real) \<and> (- 3) < worldSize two_peers_state \<and>
      0 \<le> (2000 :: real) \<and> 2000 < worldSize two_peers_state) \<and>
   (\<exists>s'. insertPeer two_peers_state 5 (- 3) 2000 = Some s' \<and>
      array_get (peers s') 5 =
        Some \<lparr>peer_idx = 5, peer_x = - 3, peer_y = 2000, peer_vx = 0, peer_vy = 0,
              peer_tdf = 1, peer_latency = 0\<rparr> \<and>
      quadtree s' = quadtree two_peers_state)"
proof -
  have h2: "1 \<le> capacity_ls two_peers_state" by (simp add: two_peers_fields)
  from insertPeer_record_always_written [OF two_peers_run h2, of 5 "- 3" 2000] two_peers_run h2
  show ?thesis by auto
qed

end
